theory Spec2Isabelle
  imports Complex_Main "HOL-Library.Option_ord"
begin

section \<open>Errors raised by the Python code\<close>

text \<open>
  Every exception that the modelled code can raise is a value of this type; a function
  that can raise returns \<open>py_error + 'a\<close> with \<open>Inl\<close> for the exception.
\<close>

datatype py_error =
  AssertionError | ZeroDivisionError | ValueError | IndexError | RuntimeError | NotANumber

text \<open>
  Tensors hold reals: the arithmetic of the model is exact, that of the code is in
  single precision. A value of the model is the value of the code up to rounding; where
  rounding decides an index, as for a quotient that is an integer over the reals, the
  code can take another branch than the model. \<open>NotANumber\<close> is not an exception of
  Python: it marks a result that the floating-point code computes from a division by
  zero and that therefore is no number.
\<close>

section \<open>Replay buffer (agilerl/components/replay\_buffer.py)\<close>

text \<open>
  An experience is the named tuple built by \<open>_add\<close> from its five arguments. The field
  \<open>done\<close> of the source is called \<open>done_flag\<close> here.
\<close>

record ('s, 'a) Experience =
  state :: 's
  action :: 'a
  reward :: real
  next_state :: 's
  done_flag :: bool

text \<open>
  \<open>collections.deque(maxlen=n)\<close>: \<open>append\<close> adds at the right end and, when the
  length then exceeds \<open>maxlen\<close>, removes one element at the left end.
\<close>

definition deque_append :: "nat \<Rightarrow> 'e list \<Rightarrow> 'e \<Rightarrow> 'e list" where
  "deque_append n d x = (let d' = d @ [x] in if n < length d' then tl d' else d')"

record ('s, 'a) ReplayBuffer =
  n_actions :: int
  maxlen :: nat
  memory :: "('s, 'a) Experience list"
  counter :: nat

text \<open>
  \<open>__init__\<close>: \<open>deque(maxlen=memory_size)\<close> raises \<open>ValueError\<close> for a negative
  \<open>memory_size\<close>.
\<close>

definition ReplayBuffer_init :: "int \<Rightarrow> int \<Rightarrow> py_error + ('s, 'a) ReplayBuffer" where
  "ReplayBuffer_init action_dim memory_size =
     (if memory_size < 0 then Inl ValueError
      else Inr \<lparr>n_actions = action_dim, maxlen = nat memory_size, memory = [], counter = 0\<rparr>)"

definition len :: "('s, 'a) ReplayBuffer \<Rightarrow> nat" where
  "len buf = length (memory buf)"

definition add :: "('s, 'a) ReplayBuffer \<Rightarrow> ('s, 'a) Experience \<Rightarrow> ('s, 'a) ReplayBuffer" where
  "add buf e = buf\<lparr>memory := deque_append (maxlen buf) (memory buf) e\<rparr>"

definition save2memorySingleEnv ::
  "('s, 'a) ReplayBuffer \<Rightarrow> ('s, 'a) Experience \<Rightarrow> ('s, 'a) ReplayBuffer" where
  "save2memorySingleEnv buf e = (add buf e)\<lparr>counter := counter (add buf e) + 1\<rparr>"

text \<open>
  \<open>zip(states, actions, rewards, next_states, dones)\<close> stops at the shortest of its
  five arguments.
\<close>

fun zip5 ::
  "'s list \<Rightarrow> 'a list \<Rightarrow> real list \<Rightarrow> 's list \<Rightarrow> bool list \<Rightarrow> ('s, 'a) Experience list" where
  "zip5 (s # ss) (a # as) (r # rs) (n # ns) (d # ds) =
     \<lparr>state = s, action = a, reward = r, next_state = n, done_flag = d\<rparr> # zip5 ss as rs ns ds"
| "zip5 _ _ _ _ _ = []"

definition save2memoryVectEnvs ::
  "('s, 'a) ReplayBuffer \<Rightarrow> 's list \<Rightarrow> 'a list \<Rightarrow> real list \<Rightarrow> 's list \<Rightarrow> bool list
     \<Rightarrow> ('s, 'a) ReplayBuffer" where
  "save2memoryVectEnvs buf states actions rewards next_states dones =
     foldl save2memorySingleEnv buf (zip5 states actions rewards next_states dones)"

text \<open>
  \<open>random.sample(population, k)\<close> of the standard library (CPython) returns \<open>k\<close>
  elements from distinct positions of the population and raises \<open>ValueError\<close> when
  \<open>k\<close> is negative or larger than the population. The generator is given as the
  sequence \<open>rng\<close> that decides its draws: the draw number \<open>i\<close>, a call \<open>randbelow(m)\<close>,
  returns \<open>rng i mod m\<close>, so that every sequence of results below the bounds is that of
  some \<open>rng\<close>. The selection has two branches, chosen by the size of the population
  against \<open>setsize\<close>:
  \<^verbatim>\<open>
  setsize = 21
  if k > 5:
      setsize += 4 ** _ceil(_log(k * 3, 4))
  if n <= setsize:
      pool = list(population)
      for i in range(k):
          j = randbelow(n - i)
          result[i] = pool[j]
          pool[j] = pool[n - i - 1]
  else:
      selected = set()
      for i in range(k):
          j = randbelow(n)
          while j in selected:
              j = randbelow(n)
          selected.add(j)
          result[i] = population[j]
  \<close>
  \<open>4 ** _ceil(_log(k * 3, 4))\<close> is the least power of 4 that is not below \<open>3 * k\<close>
  (which is no power of 4 itself), found here by going up through the powers.
\<close>

function power_cover :: "nat \<Rightarrow> nat \<Rightarrow> nat" where
  "power_cover p x = (if x \<le> p \<or> p = 0 then p else power_cover (4 * p) x)"
  by pat_completeness auto
termination
  by (relation "measure (\<lambda>(p, x). x - p)") auto

definition setsize :: "nat \<Rightarrow> nat" where
  "setsize k = 21 + (if 5 < k then power_cover 1 (3 * k) else 0)"

text \<open>
  The first branch, a partial shuffle of a copy of the population: draw \<open>i\<close> takes a
  position \<open>j\<close> below the number of elements not yet taken, returns \<open>pool[j]\<close> and moves
  the last of them into position \<open>j\<close>.
\<close>

fun select :: "(nat \<Rightarrow> nat) \<Rightarrow> nat \<Rightarrow> 'e list \<Rightarrow> nat \<Rightarrow> 'e list" where
  "select rng i pool 0 = []"
| "select rng i pool (Suc k) =
     (let j = rng i mod length pool
      in pool ! j # select rng (Suc i) (butlast (pool[j := last pool])) k)"

text \<open>
  The second branch. \<open>redraw\<close> is the draw of one position with its \<open>while\<close> loop, from
  draw \<open>i\<close> on: it returns the position and the number of the next draw, and does not
  return when every further draw is a position selected before. \<open>select_set\<close> is the
  loop over \<open>range(k)\<close>, with the positions selected so far.
\<close>

partial_function (option) redraw ::
  "(nat \<Rightarrow> nat) \<Rightarrow> nat \<Rightarrow> nat \<Rightarrow> nat list \<Rightarrow> (nat \<times> nat) option" where
  "redraw rng i n selected =
     (let j = rng i mod n
      in if j \<in> set selected then redraw rng (Suc i) n selected else Some (j, Suc i))"

fun select_set :: "(nat \<Rightarrow> nat) \<Rightarrow> nat \<Rightarrow> 'e list \<Rightarrow> nat list \<Rightarrow> nat \<Rightarrow> 'e list option" where
  "select_set rng i population selected 0 = Some []"
| "select_set rng i population selected (Suc k) =
     (case redraw rng i (length population) selected of
        None \<Rightarrow> None
      | Some (j, i') \<Rightarrow>
          (case select_set rng i' population (j # selected) k of
             None \<Rightarrow> None
           | Some result \<Rightarrow> Some (population ! j # result)))"

text \<open>\<open>random.sample\<close>; \<open>None\<close> when it does not return.\<close>

definition random_sample :: "(nat \<Rightarrow> nat) \<Rightarrow> 'e list \<Rightarrow> int \<Rightarrow> (py_error + 'e list) option" where
  "random_sample rng population k =
     (let n = length population
      in if \<not> (0 \<le> k \<and> k \<le> int n) then Some (Inl ValueError)
         else if n \<le> setsize (nat k) then Some (Inr (select rng 0 population (nat k)))
         else map_option Inr (select_set rng 0 population [] (nat k)))"

text \<open>
  \<open>sample\<close>: the drawn experiences are stacked field by field, the done flags as 0 or
  1; \<open>np.stack\<close> and \<open>np.vstack\<close> raise \<open>ValueError\<close> on an empty list. Observations and
  actions are taken to have one shape throughout the buffer. The result is \<open>None\<close> when
  \<open>random.sample\<close> does not return.
\<close>

definition stack ::
  "('s, 'a) Experience list \<Rightarrow> 's list \<times> 'a list \<times> real list \<times> 's list \<times> real list" where
  "stack es = (map state es, map action es, map reward es, map next_state es,
               map (\<lambda>e. of_bool (done_flag e)) es)"

definition sample ::
  "('s, 'a) ReplayBuffer \<Rightarrow> (nat \<Rightarrow> nat) \<Rightarrow> int
     \<Rightarrow> (py_error + ('s list \<times> 'a list \<times> real list \<times> 's list \<times> real list)) option" where
  "sample buf rng batch_size' =
     (case random_sample rng (memory buf) batch_size' of
        None \<Rightarrow> None
      | Some (Inl e) \<Rightarrow> Some (Inl e)
      | Some (Inr experiences) \<Rightarrow>
          Some (if experiences = [] then Inl ValueError else Inr (stack experiences)))"

section \<open>Rainbow DQN agent (agilerl/algorithms/dqn\_rainbow.py)\<close>

subsection \<open>The function approximator\<close>

text \<open>
  The network classes are outside the modelled files. A network is taken by its interface:
  its train/eval flag, its parameter tensors (each flattened to a list), and its three
  forward passes on one observation, each a function of the mode in which it runs:
  \<open>net(x)\<close> gives the expected value of every action, \<open>net(x, q=False)\<close> the
  categorical distribution of every action over the atoms, and
  \<open>net(x, q=False, log=True)\<close> its logarithm. A batch is passed row by row.
\<close>

record 's Module =
  training :: bool
  parameters :: "real list list"
  forward_q :: "bool \<Rightarrow> 's \<Rightarrow> real list"
  forward_dist :: "bool \<Rightarrow> 's \<Rightarrow> real list list"
  forward_log_dist :: "bool \<Rightarrow> 's \<Rightarrow> real list list"

definition train :: "bool \<Rightarrow> 's Module \<Rightarrow> 's Module" where
  "train mode net = net\<lparr>training := mode\<rparr>"

subsection \<open>Construction and the support\<close>

text \<open>
  \<open>torch.linspace(start, end, steps)\<close>: \<open>steps\<close> values from \<open>start\<close> to \<open>end\<close> at
  equal distances; a single step gives \<open>[start]\<close>. The values are taken over the
  reals; the tensor holds their roundings to single precision, and only the number of
  values is the same in both readings for every input.
\<close>

definition linspace :: "real \<Rightarrow> real \<Rightarrow> nat \<Rightarrow> real list" where
  "linspace a b steps =
     (if steps = 1 then [a]
      else map (\<lambda>i. a + real i * ((b - a) / real (steps - 1))) [0..<steps])"

record 's RainbowDQN =
  batch_size :: nat
  lr :: real
  gamma :: real
  tau :: real
  beta :: real
  prior_eps :: real
  num_atoms :: nat
  v_min :: real
  v_max :: real
  n_step :: nat
  combined_reward :: bool
  support :: "real list"
  delta_z :: real
  actor :: "'s Module"
  actor_target :: "'s Module"

text \<open>
  \<open>__init__\<close>, with the network given as \<open>actor_network\<close>: the assertions on the
  hyperparameters in the order of the source, then the support and \<open>delta_z\<close>, whose
  division raises \<open>ZeroDivisionError\<close> for a single atom, then the target network as a
  copy of the actor, both put into training mode. The integer arguments are Python
  integers; once checked to be positive they are kept as naturals.
\<close>

definition RainbowDQN_init ::
  "int \<Rightarrow> real \<Rightarrow> real \<Rightarrow> real \<Rightarrow> real \<Rightarrow> real \<Rightarrow> int \<Rightarrow> real \<Rightarrow> real \<Rightarrow> int \<Rightarrow> bool
     \<Rightarrow> 's Module \<Rightarrow> py_error + 's RainbowDQN" where
  "RainbowDQN_init batch_size' lr' gamma' tau' beta' prior_eps' num_atoms' v_min' v_max' n_step'
       combined_reward' actor_network =
     (if \<not> batch_size' \<ge> 1 then Inl AssertionError
      else if \<not> lr' > 0 then Inl AssertionError
      else if \<not> tau' > 0 then Inl AssertionError
      else if \<not> prior_eps' > 0 then Inl AssertionError
      else if \<not> num_atoms' \<ge> 1 then Inl AssertionError
      else if \<not> v_max' \<ge> v_min' then Inl AssertionError
      else if \<not> n_step' \<ge> 1 then Inl AssertionError
      else if num_atoms' - 1 = 0 then Inl ZeroDivisionError
      else Inr \<lparr>batch_size = nat batch_size', lr = lr', gamma = gamma', tau = tau',
                beta = beta', prior_eps = prior_eps', num_atoms = nat num_atoms',
                v_min = v_min', v_max = v_max', n_step = nat n_step',
                combined_reward = combined_reward',
                support = linspace v_min' v_max' (nat num_atoms'),
                delta_z = (v_max' - v_min') / real_of_int (num_atoms' - 1),
                actor = train True actor_network,
                actor_target = train True actor_network\<rparr>)"

subsection \<open>Soft update of the target network\<close>

text \<open>
  \<open>tau * eval_param.data + (1.0 - tau) * target_param.data\<close>, entry by entry, on two
  tensors of the same size, as those of a network and its copy are; tensors of different
  sizes are not combined.
\<close>

definition interpolate :: "real \<Rightarrow> real list \<Rightarrow> real list \<Rightarrow> py_error + real list" where
  "interpolate t eval_param target_param =
     (if length eval_param \<noteq> length target_param then Inl RuntimeError
      else Inr (map (\<lambda>(e, p). t * e + (1 - t) * p) (zip eval_param target_param)))"

text \<open>
  The loop of \<open>soft_update\<close> over \<open>zip(actor.parameters(), actor_target.parameters())\<close>:
  each target parameter reached by the zip is overwritten in turn; the loop stops at the
  first pair that cannot be combined.
\<close>

fun soft_update_loop :: "real \<Rightarrow> real list list \<Rightarrow> real list list \<Rightarrow> py_error + real list list" where
  "soft_update_loop t (e # es) (p # ps) =
     (case interpolate t e p of
        Inl err \<Rightarrow> Inl err
      | Inr p' \<Rightarrow> (case soft_update_loop t es ps of
                    Inl err \<Rightarrow> Inl err
                  | Inr ps' \<Rightarrow> Inr (p' # ps')))"
| "soft_update_loop t [] ps = Inr ps"
| "soft_update_loop t es [] = Inr []"

definition soft_update :: "'s RainbowDQN \<Rightarrow> py_error + 's RainbowDQN" where
  "soft_update agent =
     (case soft_update_loop (tau agent) (parameters (actor agent))
             (parameters (actor_target agent)) of
        Inl err \<Rightarrow> Inl err
      | Inr ps' \<Rightarrow> Inr (agent\<lparr>actor_target := (actor_target agent)\<lparr>parameters := ps'\<rparr>\<rparr>))"

subsection \<open>Action selection\<close>

text \<open>
  \<open>argmax\<close> returns the position of the first greatest entry.
\<close>

fun argmax_from :: "nat \<Rightarrow> 'v::linorder \<Rightarrow> nat \<Rightarrow> 'v list \<Rightarrow> nat" where
  "argmax_from best_i best i [] = best_i"
| "argmax_from best_i best i (x # xs) =
     (if best < x then argmax_from i x (Suc i) xs else argmax_from best_i best (Suc i) xs)"

definition argmax :: "'v::linorder list \<Rightarrow> nat" where
  "argmax xs = (case xs of [] \<Rightarrow> 0 | x # xs' \<Rightarrow> argmax_from 0 x 1 xs')"

text \<open>
  \<open>np.ma.array(values, mask=1 - action_mask)\<close>: an entry is masked where
  \<open>1 - action_mask\<close> is not zero; the masked \<open>argmax\<close> fills masked entries with the
  least value of the type before it takes the position of the first greatest entry.
  A masked entry is \<open>None\<close>, which is below every \<open>Some v\<close>. A mask whose shape
  differs from that of the values is refused.
\<close>

definition masked_row :: "real list \<Rightarrow> int list \<Rightarrow> py_error + real option list" where
  "masked_row values action_mask =
     (if length values \<noteq> length action_mask then Inl ValueError
      else Inr (map (\<lambda>(v, m). if 1 - m \<noteq> 0 then None else Some v) (zip values action_mask)))"

fun masked_argmax :: "real list list \<Rightarrow> int list list \<Rightarrow> py_error + nat list" where
  "masked_argmax [] [] = Inr []"
| "masked_argmax (v # vs) (m # ms) =
     (case masked_row v m of
        Inl e \<Rightarrow> Inl e
      | Inr r \<Rightarrow> (case masked_argmax vs ms of Inl e \<Rightarrow> Inl e | Inr as \<Rightarrow> Inr (argmax r # as)))"
| "masked_argmax _ _ = Inl ValueError"

text \<open>
  \<open>get_action\<close> on a batch of observations: the actor is put into the mode
  \<open>training\<close>, evaluated, and put back into training mode before the action is
  returned. The result is the action of every row and the agent after the call.
\<close>

definition get_action ::
  "'s RainbowDQN \<Rightarrow> 's list \<Rightarrow> int list list option \<Rightarrow> bool
     \<Rightarrow> py_error + (nat list \<times> 's RainbowDQN)" where
  "get_action agent states action_mask training' =
     (let agent1 = agent\<lparr>actor := train training' (actor agent)\<rparr>;
          action_values = map (forward_q (actor agent1) (training (actor agent1))) states;
          agent2 = agent1\<lparr>actor := train True (actor agent1)\<rparr>
      in case action_mask of
           None \<Rightarrow> Inr (map argmax action_values, agent2)
         | Some am \<Rightarrow>
             (case masked_argmax action_values am of
                Inl e \<Rightarrow> Inl e
              | Inr acts \<Rightarrow> Inr (acts, agent2)))"

subsection \<open>Tensor operations used by the loss\<close>

text \<open>
  Broadcasting of the leading dimension of two operands: equal sizes pair up, and an
  operand of size one is repeated; any other pair of sizes is an error, which indexing
  reports as \<open>IndexError\<close> and arithmetic as \<open>RuntimeError\<close>.
\<close>

definition broadcast_rows :: "py_error \<Rightarrow> 'x list \<Rightarrow> 'y list \<Rightarrow> py_error + ('x \<times> 'y) list" where
  "broadcast_rows err xs ys =
     (if length xs = length ys then Inr (zip xs ys)
      else if length xs = 1 then Inr (map (\<lambda>y. (hd xs, y)) ys)
      else if length ys = 1 then Inr (map (\<lambda>x. (x, hd ys)) xs)
      else Inl err)"

text \<open>
  \<open>t[rows, cols]\<close> with two index sequences: they are broadcast against each other, and
  every pair must lie inside the first two dimensions of \<open>t\<close>.
\<close>

definition index_rows :: "'x list list \<Rightarrow> nat list \<Rightarrow> nat list \<Rightarrow> py_error + 'x list" where
  "index_rows t rows cols =
     (case broadcast_rows IndexError rows cols of
        Inl e \<Rightarrow> Inl e
      | Inr ps \<Rightarrow>
          if list_all (\<lambda>(i, a). i < length t \<and> a < length (t ! i)) ps
          then Inr (map (\<lambda>(i, a). t ! i ! a) ps)
          else Inl IndexError)"

text \<open>
  \<open>dst.index_add_(0, index, source)\<close> on flat tensors: \<open>source[q]\<close> is added to
  \<open>dst[index[q]]\<close> for every \<open>q\<close>; index and source have the same number of entries and
  every index lies inside \<open>dst\<close>.
\<close>

definition scatter :: "real list \<Rightarrow> (int \<times> real) list \<Rightarrow> real list" where
  "scatter dst pairs = foldl (\<lambda>acc (j, v). acc[nat j := acc ! nat j + v]) dst pairs"

definition index_add :: "real list \<Rightarrow> int list \<Rightarrow> real list \<Rightarrow> py_error + real list" where
  "index_add dst index source =
     (if length index \<noteq> length source then Inl RuntimeError
      else if list_all (\<lambda>j. 0 \<le> j \<and> j < int (length dst)) index
      then Inr (scatter dst (zip index source))
      else Inl IndexError)"

text \<open>\<open>view(-1)\<close> of a matrix and the rows of a flat tensor seen as an \<open>r\<close> by \<open>n\<close> matrix.\<close>

definition unflatten :: "nat \<Rightarrow> nat \<Rightarrow> 'x list \<Rightarrow> 'x list list" where
  "unflatten r n flat = map (\<lambda>i. take n (drop (i * n) flat)) [0..<r]"

text \<open>\<open>x.clamp(min=lo, max=hi)\<close>.\<close>

definition clamp :: "real \<Rightarrow> real \<Rightarrow> real \<Rightarrow> real" where
  "clamp lo hi x = min (max x lo) hi"

subsection \<open>The categorical projection of \<open>_dqn_loss\<close>\<close>

text \<open>
  \<open>next_actions = self.actor(next_states).argmax(1)\<close> and
  \<open>target_q_dist = self.actor_target(next_states, q=False)[range(self.batch_size), next_actions]\<close>.
\<close>

definition next_actions :: "'s RainbowDQN \<Rightarrow> 's list \<Rightarrow> nat list" where
  "next_actions agent next_states =
     map (\<lambda>s. argmax (forward_q (actor agent) (training (actor agent)) s)) next_states"

definition target_q_dist :: "'s RainbowDQN \<Rightarrow> 's list \<Rightarrow> py_error + real list list" where
  "target_q_dist agent next_states =
     index_rows
       (map (forward_dist (actor_target agent) (training (actor_target agent))) next_states)
       [0..<batch_size agent] (next_actions agent next_states)"

text \<open>
  One row of \<open>t_z = (rewards + (1 - dones) * gamma * self.support).clamp(v_min, v_max)\<close>,
  and for one entry \<open>b = (t_z - v_min) / delta_z\<close> with its neighbours
  \<open>L = floor b\<close> and \<open>u = ceil b\<close> after the two corrections
  \<open>L[(u > 0) * (L == u)] -= 1\<close> and \<open>u[(L < num_atoms - 1) * (L == u)] += 1\<close>, the second
  of which reads the corrected \<open>L\<close>. The quotient \<open>b\<close> is the exact one; the code
  rounds \<open>delta_z\<close> and the quotient to single precision, so that its \<open>b\<close> can lie just
  above or below an integer that the exact \<open>b\<close> hits, also above \<open>num_atoms - 1\<close> at
  the upper clamp.
\<close>

definition t_z :: "'s RainbowDQN \<Rightarrow> real \<Rightarrow> real \<Rightarrow> real \<Rightarrow> real list" where
  "t_z agent g r d =
     map (\<lambda>z. clamp (v_min agent) (v_max agent) (r + (1 - d) * g * z)) (support agent)"

definition bin :: "'s RainbowDQN \<Rightarrow> real \<Rightarrow> real" where
  "bin agent t = (t - v_min agent) / delta_z agent"

definition lower :: "'s RainbowDQN \<Rightarrow> real \<Rightarrow> int" where
  "lower agent b = (if \<lceil>b\<rceil> > 0 \<and> \<lfloor>b\<rfloor> = \<lceil>b\<rceil> then \<lfloor>b\<rfloor> - 1 else \<lfloor>b\<rfloor>)"

definition upper :: "'s RainbowDQN \<Rightarrow> real \<Rightarrow> int" where
  "upper agent b =
     (if lower agent b < int (num_atoms agent) - 1 \<and> lower agent b = \<lceil>b\<rceil>
      then \<lceil>b\<rceil> + 1 else \<lceil>b\<rceil>)"

text \<open>
  \<open>offset = torch.linspace(0, (batch_size - 1) * num_atoms, batch_size).long()\<close>
  \<open>.unsqueeze(1).expand(batch_size, num_atoms)\<close>: row \<open>i\<close> holds \<open>i * num_atoms\<close>
  (integers that single precision holds exactly as long as they stay below \<open>2 ^ 24\<close>).
\<close>

definition offset :: "'s RainbowDQN \<Rightarrow> int list list" where
  "offset agent =
     map (\<lambda>i. replicate (num_atoms agent) (int (i * num_atoms agent))) [0..<batch_size agent]"

text \<open>
  The projection, from the selected target distributions and the rewards and done
  flags (as 0 or 1) of the batch. The target distributions must have one entry for each
  atom of the support. Both scatter-additions go to the flat view of \<open>proj_dist\<close>, the
  first with the lower neighbours, the second with the upper ones. With \<open>delta_z = 0\<close>
  the division gives no finite \<open>b\<close>, \<open>long()\<close> turns it into the least 64-bit integer,
  and the first \<open>index_add_\<close> raises \<open>IndexError\<close> as soon as it has an index to add
  at.
\<close>

definition projection ::
  "'s RainbowDQN \<Rightarrow> real list list \<Rightarrow> real list \<Rightarrow> real list \<Rightarrow> real \<Rightarrow> py_error + real list list" where
  "projection agent tq rewards dones g =
     (let n = num_atoms agent;
          tz = map (\<lambda>(r, d). t_z agent g r d) (zip rewards dones);
          b = map (map (bin agent)) tz;
          L = map (map (lower agent)) b;
          u = map (map (upper agent)) b
      in if \<not> (length (support agent) = n \<and> list_all (\<lambda>row. length row = n) tq)
         then Inl RuntimeError
         else
           case broadcast_rows RuntimeError L (offset agent) of
             Inl e \<Rightarrow> Inl e
           | Inr lo \<Rightarrow>
           case broadcast_rows RuntimeError u (offset agent) of
             Inl e \<Rightarrow> Inl e
           | Inr uo \<Rightarrow>
           case broadcast_rows RuntimeError tq (zip u b) of
             Inl e \<Rightarrow> Inl e
           | Inr tub \<Rightarrow>
           case broadcast_rows RuntimeError tq (zip b L) of
             Inl e \<Rightarrow> Inl e
           | Inr tbl \<Rightarrow>
           if delta_z agent = 0 \<and> concat (map (\<lambda>(Lr, fr). zip Lr fr) lo) \<noteq> [] then Inl IndexError
           else
           case index_add (replicate (length tq * n) 0)
                  (concat (map (\<lambda>(Lr, fr). map (\<lambda>(l, off). l + off) (zip Lr fr)) lo))
                  (concat (map (\<lambda>(tr, ur, br).
                      map (\<lambda>(p, x, y). p * (real_of_int x - y)) (zip tr (zip ur br))) tub)) of
             Inl e \<Rightarrow> Inl e
           | Inr proj1 \<Rightarrow>
           case index_add proj1
                  (concat (map (\<lambda>(ur, fr). map (\<lambda>(x, off). x + off) (zip ur fr)) uo))
                  (concat (map (\<lambda>(tr, br, Lr).
                      map (\<lambda>(p, y, l). p * (y - real_of_int l)) (zip tr (zip br Lr))) tbl)) of
             Inl e \<Rightarrow> Inl e
           | Inr proj2 \<Rightarrow> Inr (unflatten (length tq) n proj2))"

text \<open>
  \<open>log_p = self.actor(states, q=False, log=True)[range(self.batch_size), actions.squeeze().long()]\<close>.
\<close>

definition log_p :: "'s RainbowDQN \<Rightarrow> 's list \<Rightarrow> nat list \<Rightarrow> py_error + real list list" where
  "log_p agent states actions =
     index_rows
       (map (forward_log_dist (actor agent) (training (actor agent))) states)
       [0..<batch_size agent] actions"

text \<open>
  \<open>_dqn_loss\<close> on a batch given as its rows, each an experience with the action as an
  index: \<open>elementwise_loss = -(proj_dist * log_p).sum(1)\<close>, for log-probabilities with
  one entry for each entry of the projected distribution.
\<close>

definition dqn_loss ::
  "'s RainbowDQN \<Rightarrow> ('s, nat) Experience list \<Rightarrow> real \<Rightarrow> py_error + real list" where
  "dqn_loss agent batch g =
     (case target_q_dist agent (map next_state batch) of
        Inl e \<Rightarrow> Inl e
      | Inr tq \<Rightarrow>
      case projection agent tq (map reward batch) (map (\<lambda>e. of_bool (done_flag e)) batch) g of
        Inl e \<Rightarrow> Inl e
      | Inr proj_dist \<Rightarrow>
      case log_p agent (map state batch) (map action batch) of
        Inl e \<Rightarrow> Inl e
      | Inr lp \<Rightarrow>
      case broadcast_rows RuntimeError proj_dist lp of
        Inl e \<Rightarrow> Inl e
      | Inr pl \<Rightarrow>
          if list_all (\<lambda>(p, l). length p = length l) pl
          then Inr (map (\<lambda>(p, l). - sum_list (map (\<lambda>(x, y). x * y) (zip p l))) pl)
          else Inl RuntimeError)"

subsection \<open>The losses of \<open>learn\<close>\<close>

text \<open>
  The argument \<open>experiences\<close> of \<open>learn\<close>: the one-step batch, then the weights when
  \<open>per\<close> is set, the indices when \<open>per\<close> or \<open>n_step\<close> is set, and the n-step batch when
  \<open>n_step\<close> is set. Unpacking a tuple of another make-up raises \<open>ValueError\<close>.
\<close>

record 's Experiences =
  one_step :: "('s, nat) Experience list"
  weights :: "real list option"
  idxs :: "nat list option"
  n_batch :: "('s, nat) Experience list option"

definition unpacks :: "'s Experiences \<Rightarrow> bool \<Rightarrow> bool \<Rightarrow> bool" where
  "unpacks experiences n_step' per =
     ((weights experiences \<noteq> None) = per
      \<and> (idxs experiences \<noteq> None) = (per \<or> n_step')
      \<and> (n_batch experiences \<noteq> None) = n_step')"

text \<open>
  \<open>elementwise_loss += n_step_elementwise_loss\<close> adds in place: the right operand has
  the size of the left one or a single entry.
\<close>

definition iadd :: "real list \<Rightarrow> real list \<Rightarrow> py_error + real list" where
  "iadd xs ys =
     (if length xs = length ys then Inr (map (\<lambda>(x, y). x + y) (zip xs ys))
      else if length ys = 1 then Inr (map (\<lambda>x. x + hd ys) xs)
      else Inl RuntimeError)"

text \<open>
  The local \<open>elementwise_loss\<close> of \<open>learn\<close>, the same in its \<open>per\<close> branch and in the
  other one, from the one-step batch and, when \<open>n_step\<close> is set, the n-step batch:
  \<^verbatim>\<open>
  if self.combined_reward or not n_step:
      elementwise_loss = self._dqn_loss(..., self.gamma)
  if n_step:
      n_gamma = self.gamma**self.n_step
      n_step_elementwise_loss = self._dqn_loss(n_..., n_gamma)
      if self.combined_reward: elementwise_loss += n_step_elementwise_loss
      else: elementwise_loss = n_step_elementwise_loss
  \<close>
\<close>

definition elementwise_loss ::
  "'s RainbowDQN \<Rightarrow> ('s, nat) Experience list \<Rightarrow> ('s, nat) Experience list option
     \<Rightarrow> py_error + real list" where
  "elementwise_loss agent batch n_experiences =
     (let n_step' = (n_experiences \<noteq> None)
      in case (if combined_reward agent \<or> \<not> n_step'
               then map_sum id Some (dqn_loss agent batch (gamma agent))
               else Inr None) of
           Inl e \<Rightarrow> Inl e
         | Inr first \<Rightarrow>
             (case n_experiences of
                None \<Rightarrow> Inr (the first)
              | Some n_exp \<Rightarrow>
                  (case dqn_loss agent n_exp (gamma agent ^ n_step agent) of
                     Inl e \<Rightarrow> Inl e
                   | Inr n_step_elementwise_loss \<Rightarrow>
                       if combined_reward agent then iadd (the first) n_step_elementwise_loss
                       else Inr n_step_elementwise_loss)))"

text \<open>\<open>torch.mean\<close>; the mean of no entries is no number.\<close>

definition mean :: "real list \<Rightarrow> py_error + real" where
  "mean xs = (if xs = [] then Inl NotANumber else Inr (sum_list xs / real (length xs)))"

text \<open>
  What \<open>learn\<close> returns: the scalar loss, the indices and the new priorities. The
  gradient step, the soft update and the noise reset that \<open>learn\<close> performs before it
  returns do not enter these values.
\<close>

definition learn ::
  "'s RainbowDQN \<Rightarrow> 's Experiences \<Rightarrow> bool \<Rightarrow> bool
     \<Rightarrow> py_error + (real \<times> nat list option \<times> real list option)" where
  "learn agent experiences n_step' per =
     (if \<not> unpacks experiences n_step' per then Inl ValueError
      else
        case elementwise_loss agent (one_step experiences) (n_batch experiences) of
          Inl e \<Rightarrow> Inl e
        | Inr el \<Rightarrow>
            if per then
              (case broadcast_rows RuntimeError el (the (weights experiences)) of
                 Inl e \<Rightarrow> Inl e
               | Inr ew \<Rightarrow>
                   (case mean (map (\<lambda>(l, w). l * w) ew) of
                      Inl e \<Rightarrow> Inl e
                    | Inr loss \<Rightarrow>
                        Inr (loss, idxs experiences, Some (map (\<lambda>l. l + prior_eps agent) el))))
            else
              (case mean el of
                 Inl e \<Rightarrow> Inl e
               | Inr loss \<Rightarrow> Inr (loss, idxs experiences, None)))"

subsection \<open>The shapes owed by the networks\<close>


subsection \<open>Small concrete networks and agents for the scenarios\<close>

text \<open>
  A network over observations numbered by naturals whose outputs do not depend on the
  mode: it prefers action 1 in every observation.
\<close>

definition demo_actor :: "nat Module" where
  "demo_actor =
     \<lparr>training = False, parameters = [[1, 2], [3]],
      forward_q = (\<lambda>m s. [0, 2]),
      forward_dist = (\<lambda>m s. [[1, 0, 0], [0, 0, 1]]),
      forward_log_dist = (\<lambda>m s. [[-1, -2, -3], [-3, -2, -1]])\<rparr>"

text \<open>A target network that prefers action 0 in every observation.\<close>

definition demo_target :: "nat Module" where
  "demo_target =
     \<lparr>training = True, parameters = [[5, 6], [7]],
      forward_q = (\<lambda>m s. [3/2, 1]),
      forward_dist = (\<lambda>m s. [[0, 1/2, 1/2], [1/4, 1/2, 1/4]]),
      forward_log_dist = (\<lambda>m s. [[-4, -1, -1], [-2, -1, -2]])\<rparr>"

definition demo_agent :: "nat RainbowDQN" where
  "demo_agent =
     \<lparr>batch_size = 2, lr = 1/10000, gamma = 1/2, tau = 1/4, beta = 2/5, prior_eps = 1/1000000,
      num_atoms = 3, v_min = 0, v_max = 2, n_step = 3, combined_reward = False,
      support = [0, 1, 2], delta_z = 1, actor = demo_actor, actor_target = demo_target\<rparr>"

text \<open>Two experiences for these networks.\<close>

definition demo_e1 :: "(nat, nat) Experience" where
  "demo_e1 = \<lparr>state = 0, action = 0, reward = 1, next_state = 0, done_flag = False\<rparr>"

definition demo_e2 :: "(nat, nat) Experience" where
  "demo_e2 = \<lparr>state = 0, action = 1, reward = 1/2, next_state = 0, done_flag = True\<rparr>"

text \<open>
  The scenario with the default support: 51 atoms from -10 to 10, one transition, and a
  target network whose distribution is all on atom 25.
\<close>

definition one_hot :: "nat \<Rightarrow> nat \<Rightarrow> real list" where
  "one_hot n k = (replicate n 0)[k := 1]"

definition c51_net :: "nat Module" where
  "c51_net =
     \<lparr>training = True, parameters = [],
      forward_q = (\<lambda>m s. [0]),
      forward_dist = (\<lambda>m s. [one_hot 51 25]),
      forward_log_dist = (\<lambda>m s. [replicate 51 (-1)])\<rparr>"

definition c51_agent :: "nat RainbowDQN" where
  "c51_agent =
     \<lparr>batch_size = 1, lr = 1/10000, gamma = 1, tau = 1/1000, beta = 2/5, prior_eps = 1/1000000,
      num_atoms = 51, v_min = -10, v_max = 10, n_step = 1, combined_reward = False,
      support = linspace (-10) 10 51, delta_z = 2/5, actor = c51_net, actor_target = c51_net\<rparr>"




text \<open>An experience that carries a tag as its state, for concrete scenarios.\<close>

definition tagged :: "string \<Rightarrow> (string, nat) Experience" where
  "tagged t = \<lparr>state = t, action = 0, reward = 0, next_state = t, done_flag = False\<rparr>"

text \<open>A buffer of capacity 3 that holds the experiences tagged A, B and C.\<close>

definition demo_buffer :: "(string, nat) ReplayBuffer" where
  "demo_buffer =
     \<lparr>n_actions = 2, maxlen = 3, memory = [tagged ''A'', tagged ''B'', tagged ''C''],
      counter = 3\<rparr>"

text \<open>
  An experience numbered by its state, and a buffer of thirty of them: more than the 21
  rows up to which a sample of two is drawn by the partial shuffle.
\<close>

definition numbered :: "nat \<Rightarrow> (nat, nat) Experience" where
  "numbered i = \<lparr>state = i, action = 0, reward = 0, next_state = i, done_flag = False\<rparr>"

definition wide_buffer :: "(nat, nat) ReplayBuffer" where
  "wide_buffer =
     \<lparr>n_actions = 2, maxlen = 30, memory = map numbered [0..<30], counter = 30\<rparr>"

section \<open>The support\<close>





section \<open>Soft update\<close>

lemma soft_update_loop_same_shape:
  "map length es = map length ps \<Longrightarrow>
   soft_update_loop t es ps
     = Inr (map (\<lambda>(e, p). map (\<lambda>(x, y). t * x + (1 - t) * y) (zip e p)) (zip es ps))"
  by (induction t es ps rule: soft_update_loop.induct) (auto simp: interpolate_def)

lemma zip_map_fst_same: "length xs = length ys \<Longrightarrow> map (\<lambda>(x, y). x) (zip xs ys) = xs"
  by (induction xs ys rule: list_induct2) simp_all

lemma zip_map_snd_same: "length xs = length ys \<Longrightarrow> map (\<lambda>(x, y). y) (zip xs ys) = ys"
  by (induction xs ys rule: list_induct2) simp_all

lemma blend_one:
  "map length es = map length ps \<Longrightarrow>
   map (\<lambda>(e, p). map (\<lambda>(x, y). 1 * x + (1 - 1) * y) (zip e p)) (zip es ps) = (es :: real list list)"
proof (induction es arbitrary: ps)
  case Nil
  then show ?case by simp
next
  case (Cons e es)
  then obtain p ps' where ps: "ps = p # ps'" by (cases ps) auto
  with Cons.prems have l: "length e = length p" and r: "map length es = map length ps'" by auto
  from l have "map (\<lambda>(x, y). 1 * x + (1 - 1) * y) (zip e p) = e"
    by (simp add: zip_map_fst_same)
  with Cons.IH [OF r] ps show ?case by simp
qed

lemma blend_zero:
  "map length es = map length ps \<Longrightarrow>
   map (\<lambda>(e, p). map (\<lambda>(x, y). 0 * x + (1 - 0) * y) (zip e p)) (zip es ps) = (ps :: real list list)"
proof (induction es arbitrary: ps)
  case Nil
  then show ?case by simp
next
  case (Cons e es)
  then obtain p ps' where ps: "ps = p # ps'" by (cases ps) auto
  with Cons.prems have l: "length e = length p" and r: "map length es = map length ps'" by auto
  from l have "map (\<lambda>(x, y). 0 * x + (1 - 0) * y) (zip e p) = p"
    by (simp add: zip_map_snd_same)
  with Cons.IH [OF r] ps show ?case by simp
qed

text \<open>
  Claim C7. For two networks whose parameters have the same shapes, \<open>soft_update\<close>
  leaves the actor as it is and sets every entry of every target parameter to
  \<open>tau * online + (1 - tau) * target\<close>; with \<open>tau = 1\<close> the target parameters become a
  copy of the actor's, with \<open>tau = 0\<close> they do not change.
\<close>

theorem soft_update_law:
  assumes shape: "map length (parameters (actor agent)) = map length (parameters (actor_target agent))"
  shows "\<exists>agent'. soft_update agent = Inr agent'
     \<and> actor agent' = actor agent
     \<and> map length (parameters (actor_target agent')) = map length (parameters (actor_target agent))
     \<and> (\<forall>i < length (parameters (actor_target agent)).
          \<forall>j < length (parameters (actor_target agent) ! i).
            parameters (actor_target agent') ! i ! j
              = tau agent * (parameters (actor agent) ! i ! j)
                + (1 - tau agent) * (parameters (actor_target agent) ! i ! j))
     \<and> (tau agent = 1 \<longrightarrow> parameters (actor_target agent') = parameters (actor agent))
     \<and> (tau agent = 0 \<longrightarrow> parameters (actor_target agent') = parameters (actor_target agent))"
proof -
  let ?es = "parameters (actor agent)" and ?ps = "parameters (actor_target agent)"
  let ?new = "map (\<lambda>(e, p). map (\<lambda>(x, y). tau agent * x + (1 - tau agent) * y) (zip e p)) (zip ?es ?ps)"
  let ?agent' = "agent\<lparr>actor_target := (actor_target agent)\<lparr>parameters := ?new\<rparr>\<rparr>"
  from shape have len: "length ?es = length ?ps"
    by (metis length_map)
  have pair: "length (?es ! i) = length (?ps ! i)" if "i < length ?ps" for i
    using that shape len by (metis nth_map)
  have run: "soft_update agent = Inr ?agent'"
    by (simp add: soft_update_def soft_update_loop_same_shape [OF shape])
  have lens: "map length ?new = map length ?ps"
    using len pair by (auto intro: nth_equalityI)
  have entry: "?new ! i ! j = tau agent * (?es ! i ! j) + (1 - tau agent) * (?ps ! i ! j)"
    if "i < length ?ps" "j < length (?ps ! i)" for i j
    using that len pair [OF that(1)] by simp
  have one: "tau agent = 1 \<longrightarrow> ?new = ?es"
    using blend_one [OF shape] by simp
  have zero: "tau agent = 0 \<longrightarrow> ?new = ?ps"
    using blend_zero [OF shape] by simp
  from run lens entry one zero show ?thesis
    by (intro exI [of _ ?agent']) simp
qed

theorem soft_update_law_witness:
  "map length (parameters (actor demo_agent)) = map length (parameters (actor_target demo_agent))
   \<and> (\<exists>agent'. soft_update demo_agent = Inr agent'
         \<and> actor agent' = demo_actor
         \<and> parameters (actor_target agent') = [[4, 5], [6]])
   \<and> (\<exists>agent'. soft_update (demo_agent\<lparr>tau := 1\<rparr>) = Inr agent'
         \<and> parameters (actor_target agent') = [[1, 2], [3]])
   \<and> (\<exists>agent'. soft_update (demo_agent\<lparr>tau := 0\<rparr>) = Inr agent'
         \<and> parameters (actor_target agent') = [[5, 6], [7]])"
proof -
  have s: "map length (parameters (actor (demo_agent\<lparr>tau := t\<rparr>)))
             = map length (parameters (actor_target (demo_agent\<lparr>tau := t\<rparr>)))" for t
    by (simp add: demo_agent_def demo_actor_def demo_target_def)
  have s0: "map length (parameters (actor demo_agent))
             = map length (parameters (actor_target demo_agent))"
    by (simp add: demo_agent_def demo_actor_def demo_target_def)
  have a: "\<exists>agent'. soft_update demo_agent = Inr agent'
         \<and> actor agent' = demo_actor
         \<and> parameters (actor_target agent') = [[4, 5], [6]]"
    using soft_update_law [OF s0]
    by (simp add: soft_update_def interpolate_def demo_agent_def demo_actor_def demo_target_def)
  have b: "\<exists>agent'. soft_update (demo_agent\<lparr>tau := 1\<rparr>) = Inr agent'
         \<and> parameters (actor_target agent') = [[1, 2], [3]]"
    using soft_update_law [OF s [of 1]]
    by (auto simp: demo_agent_def demo_actor_def)
  have c: "\<exists>agent'. soft_update (demo_agent\<lparr>tau := 0\<rparr>) = Inr agent'
         \<and> parameters (actor_target agent') = [[5, 6], [7]]"
    using soft_update_law [OF s [of 0]]
    by (auto simp: demo_agent_def demo_target_def)
  from s0 a b c show ?thesis by blast
qed

section \<open>Action selection and the mode of the actor\<close>

text \<open>
  Claim C10. \<open>get_action\<close> runs the forward pass in the mode given by \<open>training\<close>,
  and whenever it returns, with or without a mask and whatever the mode of the actor
  before the call and the value of \<open>training\<close>, the actor is in training mode and
  nothing else of the agent has changed.
\<close>

theorem get_action_restores_train_mode:
  "get_action agent states None training'
     = Inr (map (\<lambda>s. argmax (forward_q (actor agent) training' s)) states,
            agent\<lparr>actor := (actor agent)\<lparr>training := True\<rparr>\<rparr>)
   \<and> (\<forall>acts agent'. get_action agent states action_mask training' = Inr (acts, agent') \<longrightarrow>
         training (actor agent') \<and> agent' = agent\<lparr>actor := (actor agent)\<lparr>training := True\<rparr>\<rparr>)"
  by (auto simp: get_action_def train_def Let_def split: option.splits sum.splits)

theorem get_action_restores_train_mode_witness:
  "\<not> training (actor demo_agent)
   \<and> get_action demo_agent [0, 1] None False
       = Inr ([1, 1], demo_agent\<lparr>actor := demo_actor\<lparr>training := True\<rparr>\<rparr>)
   \<and> get_action demo_agent [0, 1] (Some [[1, 0], [1, 1]]) False
       = Inr ([0, 1], demo_agent\<lparr>actor := demo_actor\<lparr>training := True\<rparr>\<rparr>)
   \<and> training (actor (snd (projr (get_action demo_agent [0, 1] (Some [[1, 0], [1, 1]]) False))))"
proof -
  have m: "get_action demo_agent [0, 1] (Some [[1, 0], [1, 1]]) False
       = Inr ([0, 1], demo_agent\<lparr>actor := demo_actor\<lparr>training := True\<rparr>\<rparr>)"
    by (simp add: get_action_def train_def Let_def demo_agent_def demo_actor_def
        masked_row_def argmax_def)
  from get_action_restores_train_mode
         [of demo_agent "[0, 1]" False "Some [[1, 0], [1, 1]]"] m
  show ?thesis
    by (simp add: demo_agent_def demo_actor_def argmax_def)
qed

section \<open>Replay buffer: capacity and FIFO order\<close>

lemma deque_append_length:
  "length d \<le> n \<Longrightarrow> length (deque_append n d x) \<le> n"
  by (simp add: deque_append_def Let_def)

lemma deque_append_drop:
  "deque_append n (drop (length xs - n) xs) x = drop (length (xs @ [x]) - n) (xs @ [x])"
proof (cases "length xs < n")
  case True
  then show ?thesis by (simp add: deque_append_def Let_def)
next
  case False
  then have le: "n \<le> length xs" by simp
  show ?thesis
  proof (cases "n = 0")
    case True
    then show ?thesis by (simp add: deque_append_def Let_def)
  next
    case False
    with le have ne: "drop (length xs - n) xs \<noteq> []" by simp
    from le have "length (drop (length xs - n) xs @ [x]) = Suc n" by simp
    then have "deque_append n (drop (length xs - n) xs) x = tl (drop (length xs - n) xs @ [x])"
      by (simp add: deque_append_def Let_def)
    also have "\<dots> = tl (drop (length xs - n) xs) @ [x]"
      using ne by simp
    also have "\<dots> = drop (Suc (length xs - n)) xs @ [x]"
      by (simp add: drop_Suc tl_drop)
    also have "\<dots> = drop (Suc (length xs - n)) (xs @ [x])"
      using le False by simp
    also have "Suc (length xs - n) = length (xs @ [x]) - n"
      using le by simp
    finally show ?thesis .
  qed
qed

lemma memory_inserts:
  "memory buf = drop (length xs - maxlen buf) xs \<Longrightarrow>
   memory (foldl save2memorySingleEnv buf es) = drop (length (xs @ es) - maxlen buf) (xs @ es)
   \<and> maxlen (foldl save2memorySingleEnv buf es) = maxlen buf"
proof (induction es arbitrary: buf xs)
  case Nil
  then show ?case by simp
next
  case (Cons e es)
  let ?b = "save2memorySingleEnv buf e"
  have m: "maxlen ?b = maxlen buf"
    by (simp add: save2memorySingleEnv_def add_def)
  have "memory ?b = deque_append (maxlen buf) (drop (length xs - maxlen buf) xs) e"
    using Cons.prems by (simp add: save2memorySingleEnv_def add_def)
  then have "memory ?b = drop (length (xs @ [e]) - maxlen ?b) (xs @ [e])"
    using deque_append_drop [of "maxlen buf" xs e] m by simp
  from Cons.IH [OF this] m show ?case by simp
qed

lemma counter_inserts:
  "counter (foldl save2memorySingleEnv buf es) = counter buf + length es"
  by (induction es arbitrary: buf) (simp_all add: save2memorySingleEnv_def add_def)

text \<open>
  Claim C4. A buffer created with capacity \<open>memory_size\<close> never holds more than
  \<open>memory_size\<close> experiences, whatever is inserted, one at a time or in a vectorised
  batch; its contents are the most recent \<open>memory_size\<close> insertions in insertion order, so
  that after \<open>memory_size + 1\<close> insertions exactly the first one is gone; and with capacity
  3 the insertions A, B, C, D leave B, C, D.
\<close>

theorem replay_memory_fifo:
  fixes buf :: "('s, 'a) ReplayBuffer"
  assumes "ReplayBuffer_init action_dim memory_size = Inr buf"
  shows "len (foldl save2memorySingleEnv buf es) \<le> nat memory_size
     \<and> memory (foldl save2memorySingleEnv buf es) = drop (length es - nat memory_size) es
     \<and> (length es = nat memory_size + 1 \<longrightarrow>
          memory (foldl save2memorySingleEnv buf es) = tl es)
     \<and> len (save2memoryVectEnvs buf ss as rs ns ds) \<le> nat memory_size
     \<and> memory (save2memoryVectEnvs buf ss as rs ns ds) =
           drop (length (zip5 ss as rs ns ds) - nat memory_size) (zip5 ss as rs ns ds)
     \<and> (memory_size = 3 \<longrightarrow>
          memory (foldl save2memorySingleEnv buf [A, B, C, D]) = [B, C, D])"
proof -
  from assms have b: "memory buf = []" "maxlen buf = nat memory_size"
    by (auto simp: ReplayBuffer_init_def split: if_splits)
  then have "memory buf = drop (length ([] :: ('s, 'a) Experience list) - maxlen buf) []"
    by simp
  from memory_inserts [OF this] b
  have m: "memory (foldl save2memorySingleEnv buf xs) = drop (length xs - nat memory_size) xs"
    for xs by simp
  have 1: "len (foldl save2memorySingleEnv buf es) \<le> nat memory_size"
    by (simp add: len_def m)
  have 2: "length es = nat memory_size + 1 \<longrightarrow>
          memory (foldl save2memorySingleEnv buf es) = tl es"
    by (simp add: m drop_Suc)
  have 3: "len (save2memoryVectEnvs buf ss as rs ns ds) \<le> nat memory_size"
    by (simp add: len_def save2memoryVectEnvs_def m)
  have 4: "memory (save2memoryVectEnvs buf ss as rs ns ds) =
           drop (length (zip5 ss as rs ns ds) - nat memory_size) (zip5 ss as rs ns ds)"
    by (simp add: save2memoryVectEnvs_def m)
  have 5: "memory_size = 3 \<longrightarrow>
          memory (foldl save2memorySingleEnv buf [A, B, C, D]) = [B, C, D]"
  proof
    assume "memory_size = 3"
    then show "memory (foldl save2memorySingleEnv buf [A, B, C, D]) = [B, C, D]"
      unfolding m by simp
  qed
  from 1 m [of es] 2 3 4 5 show ?thesis by blast
qed

text \<open>The scenario of the claim, with experiences told apart by a tag in their state.\<close>

theorem replay_memory_fifo_witness:
  "ReplayBuffer_init 2 3
     = Inr (\<lparr>n_actions = 2, maxlen = 3, memory = [], counter = 0\<rparr> :: (string, nat) ReplayBuffer)
   \<and> memory (foldl save2memorySingleEnv \<lparr>n_actions = 2, maxlen = 3, memory = [], counter = 0\<rparr>
         [tagged ''A'', tagged ''B'', tagged ''C'', tagged ''D''])
       = [tagged ''B'', tagged ''C'', tagged ''D'']"
proof -
  have i: "ReplayBuffer_init 2 3
             = Inr (\<lparr>n_actions = 2, maxlen = 3, memory = [], counter = 0\<rparr>
                     :: (string, nat) ReplayBuffer)"
    by (simp add: ReplayBuffer_init_def)
  from replay_memory_fifo [OF i, of "[]" "[]" "[]" "[]" "[]" "[]"
         "tagged ''A''" "tagged ''B''" "tagged ''C''" "tagged ''D''"] i
  show ?thesis by simp
qed

section \<open>The first greatest entry\<close>

lemma argmax_from_greatest:
  assumes "drop i ys = xs" "bi < i" "i \<le> length ys" "ys ! bi = bv"
    "\<forall>j<i. ys ! j \<le> bv" "\<forall>j<bi. ys ! j < bv"
  shows "argmax_from bi bv i xs < length ys
     \<and> (\<forall>j<length ys. ys ! j \<le> ys ! argmax_from bi bv i xs)
     \<and> (\<forall>j<argmax_from bi bv i xs. ys ! j < ys ! argmax_from bi bv i xs)"
  using assms
proof (induction xs arbitrary: bi bv i)
  case Nil
  then have "i = length ys" by simp
  with Nil show ?case by simp
next
  case (Cons x xs)
  from Cons.prems(1) have i: "i < length ys"
    by (cases "i < length ys") simp_all
  from Cons.prems(1) have "ys ! i # drop (Suc i) ys = x # xs"
    using i by (simp add: Cons_nth_drop_Suc)
  then have x: "ys ! i = x" and d: "drop (Suc i) ys = xs"
    by simp_all
  show ?case
  proof (cases "bv < x")
    case True
    have a: "\<forall>j<Suc i. ys ! j \<le> x"
      using Cons.prems(5) True x by (auto simp: less_Suc_eq intro: order.strict_implies_order order.trans)
    have b: "\<forall>j<i. ys ! j < x"
      using Cons.prems(5) True by (auto intro: le_less_trans)
    from Cons.IH [OF d _ _ x a b] i True show ?thesis by simp
  next
    case False
    have a: "\<forall>j<Suc i. ys ! j \<le> bv"
      using Cons.prems(5) False x by (auto simp: less_Suc_eq)
    from Cons.IH [OF d _ _ Cons.prems(4) a Cons.prems(6)] Cons.prems(2) i False
    show ?thesis by simp
  qed
qed

lemma argmax_greatest:
  assumes "ys \<noteq> []"
  shows "argmax ys < length ys
     \<and> (\<forall>j<length ys. ys ! j \<le> ys ! argmax ys)
     \<and> (\<forall>j<argmax ys. ys ! j < ys ! argmax ys)"
proof -
  from assms obtain y ys' where ys: "ys = y # ys'" by (cases ys) auto
  have "argmax_from 0 y 1 ys' < length ys
     \<and> (\<forall>j<length ys. ys ! j \<le> ys ! argmax_from 0 y 1 ys')
     \<and> (\<forall>j<argmax_from 0 y 1 ys'. ys ! j < ys ! argmax_from 0 y 1 ys')"
    by (rule argmax_from_greatest) (simp_all add: ys)
  then show ?thesis by (simp add: argmax_def ys)
qed


section \<open>Selection of the target distributions\<close>

lemma index_rows_range:
  assumes "index_rows t [0..<bs] cols = Inr r" "length t = length cols" "0 < bs"
  shows "(bs = length cols \<or> bs = 1) \<and> length r = length cols
     \<and> (\<forall>j<length cols. r ! j = t ! (if bs = length cols then j else 0) ! (cols ! j))"
proof (cases "bs = length cols")
  case True
  with assms(1) have "r = map (\<lambda>(i, a). t ! i ! a) (zip [0..<bs] cols)"
    by (auto simp: index_rows_def broadcast_rows_def split: if_splits)
  with True show ?thesis by simp
next
  case False
  note ne = this
  show ?thesis
  proof (cases "bs = 1")
    case True
    with assms(1) ne have "r = map (\<lambda>(i, a). t ! i ! a) (map (\<lambda>y. (0, y)) cols)"
      by (auto simp: index_rows_def broadcast_rows_def split: if_splits)
    with True ne show ?thesis by simp
  next
    case False
    with ne assms(1,3) have c: "length cols = 1"
      and ok: "list_all (\<lambda>(i, a). i < length t \<and> a < length (t ! i))
                 (map (\<lambda>x. (x, hd cols)) [0..<bs])"
      by (auto simp: index_rows_def broadcast_rows_def split: if_splits)
    from False assms(3) have "1 < bs" by simp
    with ok have "1 < length t"
      by (auto simp: list_all_iff)
    with c assms(2) show ?thesis by simp
  qed
qed

lemma index_rows_total:
  assumes "length t = bs" "length cols = bs" "\<forall>j<bs. cols ! j < length (t ! j)"
  shows "\<exists>r. index_rows t [0..<bs] cols = Inr r"
proof -
  have "list_all (\<lambda>(i, a). i < length t \<and> a < length (t ! i)) (zip [0..<bs] cols)"
    using assms by (auto simp: list_all_length)
  with assms show ?thesis
    by (simp add: index_rows_def broadcast_rows_def)
qed

text \<open>
  Claim C6. Whenever the selection of the target distributions succeeds, the row it
  extracts for entry \<open>j\<close> of the batch is the target network's distribution for the
  action that is the \<open>argmax\<close> of the online network's expected values at
  \<open>next_states[j]\<close>, whatever the target network's own preferred action is; it is taken
  at row \<open>j\<close> of the target network's output when the batch has \<open>batch_size\<close> rows. The
  selection succeeds on a batch of \<open>batch_size\<close> rows when the target network has a
  distribution for each of these actions. The \<open>argmax\<close> is a position of a greatest
  expected value.
\<close>

theorem double_q_selection:
  assumes "0 < batch_size agent"
  shows "(\<forall>tq. target_q_dist agent next_states = Inr tq \<longrightarrow>
           length tq = length next_states
           \<and> (\<forall>j<length next_states.
                 tq ! j = forward_dist (actor_target agent) (training (actor_target agent))
                            (next_states ! (if batch_size agent = length next_states then j else 0))
                          ! argmax (forward_q (actor agent) (training (actor agent))
                                      (next_states ! j))))
     \<and> (length next_states = batch_size agent
          \<and> (\<forall>j<length next_states.
                argmax (forward_q (actor agent) (training (actor agent)) (next_states ! j))
                  < length (forward_dist (actor_target agent) (training (actor_target agent))
                              (next_states ! j)))
          \<longrightarrow> (\<exists>tq. target_q_dist agent next_states = Inr tq))
     \<and> (\<forall>j<length next_states.
           forward_q (actor agent) (training (actor agent)) (next_states ! j) \<noteq> [] \<longrightarrow>
           argmax (forward_q (actor agent) (training (actor agent)) (next_states ! j))
             < length (forward_q (actor agent) (training (actor agent)) (next_states ! j))
           \<and> (\<forall>a<length (forward_q (actor agent) (training (actor agent)) (next_states ! j)).
                 forward_q (actor agent) (training (actor agent)) (next_states ! j) ! a
                   \<le> forward_q (actor agent) (training (actor agent)) (next_states ! j)
                       ! argmax (forward_q (actor agent) (training (actor agent))
                                   (next_states ! j))))"
proof -
  let ?t = "map (forward_dist (actor_target agent) (training (actor_target agent))) next_states"
  let ?c = "next_actions agent next_states"
  have lc: "length ?c = length next_states" and lt: "length ?t = length ?c"
    by (simp_all add: next_actions_def)
  have 1: "length tq = length next_states
           \<and> (\<forall>j<length next_states.
                 tq ! j = forward_dist (actor_target agent) (training (actor_target agent))
                            (next_states ! (if batch_size agent = length next_states then j else 0))
                          ! argmax (forward_q (actor agent) (training (actor agent))
                                      (next_states ! j)))"
    if "target_q_dist agent next_states = Inr tq" for tq
  proof -
    from that have "index_rows ?t [0..<batch_size agent] ?c = Inr tq"
      by (simp add: target_q_dist_def)
    from index_rows_range [OF this lt assms] lc
    have b: "batch_size agent = length next_states \<or> batch_size agent = 1"
      and l: "length tq = length next_states"
      and r: "\<forall>j<length next_states.
               tq ! j = ?t ! (if batch_size agent = length next_states then j else 0) ! (?c ! j)"
      by simp_all
    show ?thesis
    proof (intro conjI allI impI)
      fix j assume j: "j < length next_states"
      then have z: "0 < length next_states" by (cases next_states) simp_all
      from r j have "tq ! j = ?t ! (if batch_size agent = length next_states then j else 0) ! (?c ! j)"
        by blast
      with j z show "tq ! j = forward_dist (actor_target agent) (training (actor_target agent))
                            (next_states ! (if batch_size agent = length next_states then j else 0))
                          ! argmax (forward_q (actor agent) (training (actor agent))
                                      (next_states ! j))"
        by (simp add: next_actions_def)
    qed (rule l)
  qed
  have 2: "\<exists>tq. target_q_dist agent next_states = Inr tq"
    if "length next_states = batch_size agent"
      "\<forall>j<length next_states.
                argmax (forward_q (actor agent) (training (actor agent)) (next_states ! j))
                  < length (forward_dist (actor_target agent) (training (actor_target agent))
                              (next_states ! j))"
    unfolding target_q_dist_def
    using that by (intro index_rows_total) (simp_all add: next_actions_def)
  have 3: "argmax (forward_q (actor agent) (training (actor agent)) (next_states ! j))
             < length (forward_q (actor agent) (training (actor agent)) (next_states ! j))
           \<and> (\<forall>a<length (forward_q (actor agent) (training (actor agent)) (next_states ! j)).
                 forward_q (actor agent) (training (actor agent)) (next_states ! j) ! a
                   \<le> forward_q (actor agent) (training (actor agent)) (next_states ! j)
                       ! argmax (forward_q (actor agent) (training (actor agent))
                                   (next_states ! j)))"
    if "forward_q (actor agent) (training (actor agent)) (next_states ! j) \<noteq> []" for j
    using argmax_greatest [OF that] by blast
  from 1 2 3 show ?thesis by blast
qed

theorem double_q_selection_witness:
  "0 < batch_size demo_agent
   \<and> argmax (forward_q demo_target True 0) = 0
   \<and> argmax (forward_q demo_actor False 0) = 1
   \<and> target_q_dist demo_agent [0, 0] = Inr [[1/4, 1/2, 1/4], [1/4, 1/2, 1/4]]
   \<and> forward_dist demo_target True 0 ! 1 = [1/4, 1/2, 1/4]"
proof -
  have b: "0 < batch_size demo_agent" by (simp add: demo_agent_def)
  have t: "target_q_dist demo_agent [0, 0] = Inr [[1/4, 1/2, 1/4], [1/4, 1/2, 1/4]]"
    by (simp add: target_q_dist_def index_rows_def broadcast_rows_def next_actions_def
        demo_agent_def demo_actor_def demo_target_def argmax_def numeral_2_eq_2)
  from double_q_selection [OF b, of "[0, 0]"] t b show ?thesis
    by (simp add: demo_actor_def demo_target_def argmax_def)
qed

section \<open>Blending of the one-step and the n-step loss\<close>

text \<open>
  Claim C8. When \<open>learn\<close> is given an n-step batch: with \<open>combined_reward\<close> the
  elementwise loss is the entry-by-entry sum of the one-step loss, computed with
  \<open>gamma\<close>, and the n-step loss, computed with \<open>gamma ^ n_step\<close>, and the scalar loss
  is the mean of these sums; without \<open>combined_reward\<close> the elementwise loss is the
  n-step loss alone.
\<close>

theorem loss_blending:
  "elementwise_loss agent batch (Some n_exp) =
     (if combined_reward agent
      then (case dqn_loss agent batch (gamma agent) of
              Inl e \<Rightarrow> Inl e
            | Inr l1 \<Rightarrow>
                (case dqn_loss agent n_exp (gamma agent ^ n_step agent) of
                   Inl e \<Rightarrow> Inl e
                 | Inr nl \<Rightarrow> iadd l1 nl))
      else dqn_loss agent n_exp (gamma agent ^ n_step agent))
   \<and> (\<forall>l1 nl. dqn_loss agent batch (gamma agent) = Inr l1
         \<and> dqn_loss agent n_exp (gamma agent ^ n_step agent) = Inr nl
         \<and> length l1 = length nl \<and> combined_reward agent \<longrightarrow>
         (\<exists>l. elementwise_loss agent batch (Some n_exp) = Inr l \<and> length l = length l1
            \<and> (\<forall>i<length l1. l ! i = l1 ! i + nl ! i)
            \<and> (l \<noteq> [] \<longrightarrow>
                 learn agent \<lparr>one_step = batch, weights = None, idxs = ix, n_batch = Some n_exp\<rparr>
                   True False
                 = (if ix = None then Inl ValueError
                    else Inr ((\<Sum>i<length l1. l1 ! i + nl ! i) / real (length l1), ix, None)))))
   \<and> (\<forall>nl. dqn_loss agent n_exp (gamma agent ^ n_step agent) = Inr nl
         \<and> \<not> combined_reward agent \<longrightarrow>
         elementwise_loss agent batch (Some n_exp) = Inr nl)"
proof -
  have a: "elementwise_loss agent batch (Some n_exp) =
     (if combined_reward agent
      then (case dqn_loss agent batch (gamma agent) of
              Inl e \<Rightarrow> Inl e
            | Inr l1 \<Rightarrow>
                (case dqn_loss agent n_exp (gamma agent ^ n_step agent) of
                   Inl e \<Rightarrow> Inl e
                 | Inr nl \<Rightarrow> iadd l1 nl))
      else dqn_loss agent n_exp (gamma agent ^ n_step agent))"
    by (simp add: elementwise_loss_def split: sum.splits)
  have b: "\<exists>l. elementwise_loss agent batch (Some n_exp) = Inr l \<and> length l = length l1
            \<and> (\<forall>i<length l1. l ! i = l1 ! i + nl ! i)
            \<and> (l \<noteq> [] \<longrightarrow>
                 learn agent \<lparr>one_step = batch, weights = None, idxs = ix, n_batch = Some n_exp\<rparr>
                   True False
                 = (if ix = None then Inl ValueError
                    else Inr ((\<Sum>i<length l1. l1 ! i + nl ! i) / real (length l1), ix, None)))"
    if h: "dqn_loss agent batch (gamma agent) = Inr l1"
      "dqn_loss agent n_exp (gamma agent ^ n_step agent) = Inr nl"
      "length l1 = length nl" "combined_reward agent" for l1 nl
  proof -
    let ?l = "map (\<lambda>(x, y). x + y) (zip l1 nl)"
    have el: "elementwise_loss agent batch (Some n_exp) = Inr ?l"
      using h by (simp add: a iadd_def)
    have len: "length ?l = length l1" using h(3) by simp
    have nth: "\<forall>i<length l1. ?l ! i = l1 ! i + nl ! i" using h(3) by simp
    have "sum_list ?l = (\<Sum>i<length ?l. ?l ! i)"
      by (rule sum_list_sum_nth [where xs = ?l, unfolded atLeast0LessThan])
    also have "\<dots> = (\<Sum>i<length l1. l1 ! i + nl ! i)"
      using h(3) by simp
    finally have s: "sum_list ?l = (\<Sum>i<length l1. l1 ! i + nl ! i)" .
    have "learn agent \<lparr>one_step = batch, weights = None, idxs = ix, n_batch = Some n_exp\<rparr>
                   True False
                 = (if ix = None then Inl ValueError
                    else Inr ((\<Sum>i<length l1. l1 ! i + nl ! i) / real (length l1), ix, None))"
      if "?l \<noteq> []"
      using that el s len by (simp add: learn_def unpacks_def mean_def del: length_map)
    with el len nth show ?thesis by blast
  qed
  have c: "elementwise_loss agent batch (Some n_exp) = Inr nl"
    if "dqn_loss agent n_exp (gamma agent ^ n_step agent) = Inr nl" "\<not> combined_reward agent"
    for nl
    using that by (simp add: a)
  from a b c show ?thesis by blast
qed


theorem loss_blending_witness:
  "dqn_loss (demo_agent\<lparr>combined_reward := True\<rparr>) [demo_e1, demo_e2] (1/2) = Inr [5/2, 5/2]
   \<and> dqn_loss (demo_agent\<lparr>combined_reward := True\<rparr>) [demo_e2, demo_e1] ((1/2) ^ 3) = Inr [5/2, 17/8]
   \<and> elementwise_loss (demo_agent\<lparr>combined_reward := True\<rparr>) [demo_e1, demo_e2] (Some [demo_e2, demo_e1])
       = Inr [5, 37/8]
   \<and> learn (demo_agent\<lparr>combined_reward := True\<rparr>)
         \<lparr>one_step = [demo_e1, demo_e2], weights = None, idxs = Some [4, 5], n_batch = Some [demo_e2, demo_e1]\<rparr>
         True False = Inr (77/16, Some [4, 5], None)
   \<and> elementwise_loss demo_agent [demo_e1, demo_e2] (Some [demo_e2, demo_e1]) = Inr [5/2, 17/8]"
proof -
  let ?A = "demo_agent\<lparr>combined_reward := True\<rparr>"
  have g: "gamma ?A = 1/2" "n_step ?A = 3" "combined_reward ?A"
    "gamma demo_agent = 1/2" "n_step demo_agent = 3" "\<not> combined_reward demo_agent"
    by (simp_all add: demo_agent_def)
  have 1: "dqn_loss ?A [demo_e1, demo_e2] (1/2) = Inr [5/2, 5/2]"
    by code_simp
  have 2: "dqn_loss ?A [demo_e2, demo_e1] ((1/2) ^ 3) = Inr [5/2, 17/8]"
    by code_simp
  have 3: "dqn_loss demo_agent [demo_e2, demo_e1] ((1/2) ^ 3) = Inr [5/2, 17/8]"
    by code_simp
  from loss_blending [of ?A "[demo_e1, demo_e2]" "[demo_e2, demo_e1]" "Some [4, 5]"] 1 2 g
  have 4: "elementwise_loss ?A [demo_e1, demo_e2] (Some [demo_e2, demo_e1]) = Inr [5, 37/8]"
    by (simp add: iadd_def)
  from loss_blending [of ?A "[demo_e1, demo_e2]" "[demo_e2, demo_e1]" "Some [4, 5]"] 1 2 4 g
  have 5: "learn ?A
         \<lparr>one_step = [demo_e1, demo_e2], weights = None, idxs = Some [4, 5], n_batch = Some [demo_e2, demo_e1]\<rparr>
         True False = Inr (77/16, Some [4, 5], None)"
    by (simp add: lessThan_Suc numeral_2_eq_2)
  from loss_blending [of demo_agent "[demo_e1, demo_e2]" "[demo_e2, demo_e1]" "Some [4, 5]"] 3 g
  have 6: "elementwise_loss demo_agent [demo_e1, demo_e2] (Some [demo_e2, demo_e1]) = Inr [5/2, 17/8]"
    by simp
  from 1 2 4 5 6 show ?thesis by simp
qed

section \<open>The projection on the default support\<close>

text \<open>
  Claim C5. With \<open>v_min = -10\<close>, \<open>v_max = 10\<close> and 51 atoms, \<open>delta_z\<close> is 0.4 and atom
  25 is 0. For one transition with reward 1, not done, an effective discount of 1 and a
  target distribution that is all on atom 25: the target value of atom 25 is 1, its bin
  index is 27.5 with neighbours 27 and 28, and the projected distribution is 0.5 at
  atoms 27 and 28 and 0 elsewhere.
\<close>

theorem projection_scenario:
  "RainbowDQN_init 1 (1/10000) 1 (1/1000) (2/5) (1/1000000) 51 (-10) 10 1 False c51_net
     = Inr c51_agent
   \<and> delta_z c51_agent = 2/5
   \<and> support c51_agent ! 25 = 0
   \<and> target_q_dist c51_agent [0] = Inr [one_hot 51 25]
   \<and> t_z c51_agent 1 1 0 ! 25 = 1
   \<and> bin c51_agent 1 = 55/2
   \<and> lower c51_agent (55/2) = 27
   \<and> upper c51_agent (55/2) = 28
   \<and> projection c51_agent [one_hot 51 25] [1] [0] 1
       = Inr [replicate 27 0 @ [1/2, 1/2] @ replicate 22 0]"
proof -
  have 1: "RainbowDQN_init 1 (1/10000) 1 (1/1000) (2/5) (1/1000000) 51 (-10) 10 1 False c51_net
     = Inr c51_agent"
    by (simp add: RainbowDQN_init_def c51_agent_def train_def c51_net_def)
  have 2: "delta_z c51_agent = 2/5"
    by (simp add: c51_agent_def)
  have 3: "support c51_agent ! 25 = 0"
    by (simp add: c51_agent_def linspace_def)
  have 4: "target_q_dist c51_agent [0] = Inr [one_hot 51 25]"
    by (simp add: target_q_dist_def index_rows_def broadcast_rows_def next_actions_def
        c51_agent_def c51_net_def argmax_def)
  have 5: "t_z c51_agent 1 1 0 ! 25 = 1"
    by (simp add: t_z_def c51_agent_def linspace_def clamp_def)
  have 6: "bin c51_agent 1 = 55/2 \<and> lower c51_agent (55/2) = 27 \<and> upper c51_agent (55/2) = 28"
    by (simp add: bin_def lower_def upper_def c51_agent_def)
  have 7: "projection c51_agent [one_hot 51 25] [1] [0] 1
       = Inr [replicate 27 0 @ [1/2, 1/2] @ replicate 22 0]"
    by code_simp
  from 1 2 3 4 5 6 7 show ?thesis by blast
qed


text \<open>
  With equal bounds construction succeeds, \<open>delta_z\<close> is zero, and the projection of a
  row raises \<open>IndexError\<close>.
\<close>

lemma projection_equal_bounds:
  "map_sum id (\<lambda>agent. projection agent [[1/2, 1/2]] [0] [0] 1)
     (RainbowDQN_init 1 (1/10000) 1 (1/1000) (2/5) (1/1000000) 2 0 0 1 False demo_actor)
   = Inr (Inl IndexError)"
  by (simp add: RainbowDQN_init_def projection_def Let_def linspace_def t_z_def offset_def
      broadcast_rows_def numeral_2_eq_2)

section \<open>Replay buffer: sampling\<close>

lemma setsize_small: "k \<le> 5 \<Longrightarrow> setsize k = 21"
  by (simp add: setsize_def)

lemma setsize_64: "setsize 64 = 277"
  by (simp add: setsize_def)

lemma pool_step:
  assumes "distinct pool" "j < length pool"
  shows "distinct (butlast (pool[j := last pool]))
     \<and> set (butlast (pool[j := last pool])) = set pool - {pool ! j}
     \<and> length (butlast (pool[j := last pool])) = length pool - 1"
proof -
  from assms(2) have ne: "pool \<noteq> []" by auto
  define ys l where "ys = butlast pool" and "l = last pool"
  with ne have pool: "pool = ys @ [l]" by simp
  from assms(1) pool have d: "distinct ys" and l: "l \<notin> set ys" by auto
  show ?thesis
  proof (cases "j = length ys")
    case True
    with pool have "pool[j := last pool] = pool" and "pool ! j = l" by simp_all
    with pool d l show ?thesis by auto
  next
    case False
    with assms(2) pool have j: "j < length ys" by simp
    with pool have u: "butlast (pool[j := last pool]) = ys[j := l]"
      by (simp add: list_update_append)
    from j pool have pj: "pool ! j = ys ! j" by (simp add: nth_append)
    from j l have ne': "l \<noteq> ys ! j" by (metis nth_mem)
    have "distinct (ys[j := l])"
      using d l by (simp add: distinct_list_update)
    moreover have "set (ys[j := l]) = set pool - {pool ! j}"
      using set_update_distinct [OF d j, of l] pool pj ne' l by auto
    ultimately show ?thesis using u pool by simp
  qed
qed

lemma select_distinct:
  "distinct pool \<Longrightarrow> k \<le> length pool \<Longrightarrow>
   distinct (select rng i pool k) \<and> set (select rng i pool k) \<subseteq> set pool
     \<and> length (select rng i pool k) = k"
proof (induction k arbitrary: pool i)
  case 0
  then show ?case by simp
next
  case (Suc k)
  let ?j = "rng i mod length pool"
  let ?p = "butlast (pool[?j := last pool])"
  from Suc.prems(2) have "0 < length pool" by (cases pool) simp_all
  then have j: "?j < length pool" by simp
  from pool_step [OF Suc.prems(1) j]
  have d: "distinct ?p" and s: "set ?p = set pool - {pool ! ?j}"
    and n: "length ?p = length pool - 1" by simp_all
  from n Suc.prems(2) have "k \<le> length ?p" by simp
  from Suc.IH [OF d this, of "Suc i"] s j show ?case
    by (auto simp: Let_def)
qed

lemma select_map:
  "k \<le> length pool \<Longrightarrow> select rng i (map f pool) k = map f (select rng i pool k)"
proof (induction k arbitrary: pool i)
  case 0
  then show ?case by simp
next
  case (Suc k)
  from Suc.prems have ne: "pool \<noteq> []" by (cases pool) simp_all
  then have "0 < length pool" by simp
  then have j: "rng i mod length pool < length pool" by simp
  have "butlast ((map f pool)[rng i mod length pool := last (map f pool)])
          = map f (butlast (pool[rng i mod length pool := last pool]))"
    using ne by (simp add: map_update last_map map_butlast)
  moreover have "k \<le> length (butlast (pool[rng i mod length pool := last pool]))"
    using Suc.prems by simp
  ultimately show ?case
    using Suc.IH [of "butlast (pool[rng i mod length pool := last pool])" "Suc i"] j
    by (simp add: Let_def)
qed

lemma select_cong:
  fixes pool :: "'e list"
  shows "\<forall>m\<ge>i. rng m = rng' m \<Longrightarrow> select rng i pool k = select rng' i pool k"
proof (induction k arbitrary: pool i)
  case 0
  then show ?case by simp
next
  case (Suc k)
  from Suc.prems have "rng i = rng' i" by simp
  moreover have "select rng (Suc i) p k = select rng' (Suc i) p k" for p :: "'e list"
    using Suc.prems by (intro Suc.IH) simp
  ultimately show ?case by (simp add: Let_def)
qed

lemma select_onto:
  "distinct pool \<Longrightarrow> distinct xs \<Longrightarrow> set xs \<subseteq> set pool \<Longrightarrow>
   \<exists>rng. select rng i pool (length xs) = xs"
proof (induction xs arbitrary: pool i)
  case Nil
  then show ?case by simp
next
  case (Cons x xs)
  from Cons.prems(3) obtain j where j: "j < length pool" and x: "pool ! j = x"
    by (auto simp: in_set_conv_nth)
  let ?p = "butlast (pool[j := last pool])"
  from pool_step [OF Cons.prems(1) j] x
  have d: "distinct ?p" and s: "set ?p = set pool - {x}" by simp_all
  from Cons.prems(2,3) s have "set xs \<subseteq> set ?p" by auto
  with Cons.IH [OF d, of "Suc i"] Cons.prems(2)
  obtain rng where r: "select rng (Suc i) ?p (length xs) = xs" by auto
  have "select (rng(i := j)) (Suc i) ?p (length xs) = select rng (Suc i) ?p (length xs)"
    by (rule select_cong) simp
  with r j x have "select (rng(i := j)) i pool (length (x # xs)) = x # xs"
    by (simp add: Let_def)
  then show ?case by blast
qed

lemma select_one_to_one:
  "distinct pool \<Longrightarrow> k \<le> length pool \<Longrightarrow> select rng i pool k = select rng' i pool k \<Longrightarrow>
   m < k \<Longrightarrow> rng (i + m) mod (length pool - m) = rng' (i + m) mod (length pool - m)"
proof (induction k arbitrary: pool i m)
  case 0
  then show ?case by simp
next
  case (Suc k)
  let ?j = "rng i mod length pool" and ?j' = "rng' i mod length pool"
  from Suc.prems(2) have "0 < length pool" by (cases pool) simp_all
  then have j: "?j < length pool" "?j' < length pool" by simp_all
  from Suc.prems(3) have h: "pool ! ?j = pool ! ?j'"
    and t: "select rng (Suc i) (butlast (pool[?j := last pool])) k
              = select rng' (Suc i) (butlast (pool[?j' := last pool])) k"
    by (simp_all add: Let_def)
  from h j Suc.prems(1) have e: "?j = ?j'"
    by (simp add: nth_eq_iff_index_eq)
  show ?case
  proof (cases m)
    case 0
    with e show ?thesis by simp
  next
    case (Suc m')
    let ?p = "butlast (pool[?j := last pool])"
    from pool_step [OF Suc.prems(1) j(1)]
    have d: "distinct ?p" and n: "length ?p = length pool - 1" by simp_all
    from n Suc.prems(2) have k: "k \<le> length ?p" by simp
    from t e have t': "select rng (Suc i) ?p k = select rng' (Suc i) ?p k" by simp
    from Suc Suc.prems(4) have "m' < k" by simp
    from Suc.IH [OF d k t' this] n Suc show ?thesis by simp
  qed
qed



lemma redraw_Some:
  assumes "rng m mod n \<notin> set sel" "\<forall>j. i \<le> j \<and> j < m \<longrightarrow> rng j mod n \<in> set sel" "i \<le> m"
  shows "redraw rng i n sel = Some (rng m mod n, Suc m)"
  using assms
proof (induction "m - i" arbitrary: i)
  case 0
  then have "i = m" by simp
  with 0 show ?case by (subst redraw.simps) (simp add: Let_def)
next
  case (Suc d)
  then have lt: "i < m" by simp
  with Suc.prems have "rng i mod n \<in> set sel" by simp
  moreover have "redraw rng (Suc i) n sel = Some (rng m mod n, Suc m)"
    using Suc lt by (intro Suc.hyps(1)) auto
  ultimately show ?case by (subst redraw.simps) (simp add: Let_def)
qed

lemma redraw_sound:
  assumes "redraw rng i n sel = Some r"
  shows "i < snd r \<and> fst r = rng (snd r - 1) mod n \<and> fst r \<notin> set sel
     \<and> (\<forall>j. i \<le> j \<and> j < snd r - 1 \<longrightarrow> rng j mod n \<in> set sel)"
proof (rule redraw.raw_induct
    [where P = "\<lambda>rng i n sel r. i < snd r \<and> fst r = rng (snd r - 1) mod n \<and> fst r \<notin> set sel
                  \<and> (\<forall>j. i \<le> j \<and> j < snd r - 1 \<longrightarrow> rng j mod n \<in> set sel)", OF _ assms],
    goal_cases)
  case (1 redraw rng i n sel r)
  show ?case
  proof (cases "rng i mod n \<in> set sel")
    case True
    with 1(2) have "redraw rng (Suc i) n sel = Some r" by (simp add: Let_def)
    from 1(1) [OF this] have s: "Suc i < snd r" and f: "fst r = rng (snd r - 1) mod n"
      and n: "fst r \<notin> set sel"
      and a: "\<forall>j. Suc i \<le> j \<and> j < snd r - 1 \<longrightarrow> rng j mod n \<in> set sel"
      by blast+
    have "rng j mod n \<in> set sel" if "i \<le> j" "j < snd r - 1" for j
    proof (cases "j = i")
      case True
      with \<open>rng i mod n \<in> set sel\<close> show ?thesis by simp
    next
      case False
      with that a show ?thesis by simp
    qed
    moreover from s have "i < snd r" by simp
    ultimately show ?thesis using f n by blast
  next
    case False
    with 1(2) have "r = (rng i mod n, Suc i)" by (simp add: Let_def)
    with False show ?thesis by auto
  qed
qed

lemma redraw_None:
  assumes "\<forall>j\<ge>i. rng j mod n \<in> set sel"
  shows "redraw rng i n sel = None"
proof (cases "redraw rng i n sel")
  case None
  then show ?thesis .
next
  case (Some r)
  from redraw_sound [OF Some] have "i < snd r" "fst r = rng (snd r - 1) mod n"
    "fst r \<notin> set sel" by blast+
  then have "i \<le> snd r - 1" "rng (snd r - 1) mod n \<notin> set sel"
    by auto
  with assms show ?thesis by blast
qed

lemma redraw_least:
  assumes "i \<le> m" "rng m mod n \<notin> set sel"
  shows "\<exists>m'\<ge>i. rng m' mod n \<notin> set sel \<and> redraw rng i n sel = Some (rng m' mod n, Suc m')"
proof -
  define m' where "m' = (LEAST x. i \<le> x \<and> rng x mod n \<notin> set sel)"
  from assms have e: "i \<le> m \<and> rng m mod n \<notin> set sel" by simp
  from LeastI [of "\<lambda>x. i \<le> x \<and> rng x mod n \<notin> set sel", OF e]
  have p: "i \<le> m'" "rng m' mod n \<notin> set sel" by (simp_all add: m'_def)
  have "rng j mod n \<in> set sel" if "i \<le> j" "j < m'" for j
    using not_less_Least [of j "\<lambda>x. i \<le> x \<and> rng x mod n \<notin> set sel"] that
    by (auto simp: m'_def)
  then have "redraw rng i n sel = Some (rng m' mod n, Suc m')"
    using p redraw_Some [of rng m' n sel i] by blast
  with p show ?thesis by blast
qed

lemma select_set_positions:
  assumes "0 < length pop"
  shows "select_set rng i pop sel k
           = map_option (map (\<lambda>p. pop ! p)) (select_set rng i [0..<length pop] sel k)"
proof (induction k arbitrary: i sel)
  case 0
  show ?case by simp
next
  case (Suc k)
  show ?case
  proof (cases "redraw rng i (length pop) sel")
    case None
    then show ?thesis by simp
  next
    case (Some r)
    obtain j i' where r: "r = (j, i')" by (cases r)
    from redraw_sound [OF Some] r have "j = rng (i' - 1) mod length pop" by simp
    with assms have "j < length pop" by simp
    with Some r Suc.IH [of i' "j # sel"] show ?thesis
      by (simp split: option.splits)
  qed
qed

lemma select_set_sound:
  assumes "select_set rng i [0..<n] sel k = Some ps" "0 < n"
  shows "length ps = k \<and> distinct ps \<and> set ps \<inter> set sel = {} \<and> (\<forall>p\<in>set ps. p < n)"
  using assms(1)
proof (induction k arbitrary: i sel ps)
  case 0
  then show ?case by simp
next
  case (Suc k)
  from Suc.prems obtain j i' qs where r: "redraw rng i n sel = Some (j, i')"
    and s: "select_set rng i' [0..<n] (j # sel) k = Some qs" and ps: "ps = [0..<n] ! j # qs"
    by (auto split: option.splits)
  from redraw_sound [OF r] have "fst (j, i') = rng (snd (j, i') - 1) mod n"
    and "fst (j, i') \<notin> set sel" by blast+
  then have "j = rng (i' - 1) mod n" and j2: "j \<notin> set sel" by simp_all
  with assms(2) have j: "j < n" "j \<notin> set sel" by simp_all
  from Suc.IH [OF s] have "length qs = k" "distinct qs" "set qs \<inter> set (j # sel) = {}"
    "\<forall>p\<in>set qs. p < n" by simp_all
  with j ps show ?case by auto
qed

lemma select_set_returns:
  assumes fair: "\<forall>v<n. \<forall>i. \<exists>m\<ge>i. rng m mod n = v"
  shows "set sel \<subseteq> {..<n} \<Longrightarrow> card (set sel) + k \<le> n \<Longrightarrow>
         \<exists>ps. select_set rng i [0..<n] sel k = Some ps"
proof (induction k arbitrary: i sel)
  case 0
  show ?case by simp
next
  case (Suc k)
  from Suc.prems(2) have "card (set sel) < card {..<n}" by simp
  then have "\<not> {..<n} \<subseteq> set sel"
    by (metis List.finite_set card_mono not_less)
  then obtain v where v: "v < n" "v \<notin> set sel" by auto
  from fair v(1) obtain m where m: "i \<le> m" "rng m mod n = v" by blast
  with v(2) have "rng m mod n \<notin> set sel" by simp
  from redraw_least [of i m rng n sel] m(1) this obtain m' where
    r: "redraw rng i n sel = Some (rng m' mod n, Suc m')" and f: "rng m' mod n \<notin> set sel"
    by blast
  from v(1) have j: "rng m' mod n < n" by simp
  with Suc.prems(1) have 1: "set (rng m' mod n # sel) \<subseteq> {..<n}" by simp
  from f Suc.prems(2) have 2: "card (set (rng m' mod n # sel)) + k \<le> n" by simp
  from Suc.IH [OF 1 2, of "Suc m'"] obtain qs where
    "select_set rng (Suc m') [0..<n] (rng m' mod n # sel) k = Some qs" by blast
  with r show ?case by simp
qed

lemma select_set_exact:
  assumes "\<forall>p\<in>set ps. p < n"
  shows "distinct ps \<Longrightarrow> set ps \<inter> set sel = {} \<Longrightarrow> \<forall>m<length ps. rng (i + m) mod n = ps ! m \<Longrightarrow>
         select_set rng i [0..<n] sel (length ps) = Some ps"
  using assms
proof (induction ps arbitrary: i sel)
  case Nil
  show ?case by simp
next
  case (Cons p ps)
  from Cons.prems(3) have p: "rng i mod n = p" by auto
  from Cons.prems(2) have "p \<notin> set sel" by simp
  with p have "rng i mod n \<notin> set sel" by simp
  moreover have "\<forall>j. i \<le> j \<and> j < i \<longrightarrow> rng j mod n \<in> set sel" by auto
  ultimately have "redraw rng i n sel = Some (rng i mod n, Suc i)"
    using redraw_Some [of rng i n sel i] by blast
  with p have r: "redraw rng i n sel = Some (p, Suc i)" by simp
  from Cons.prems(1,2) have d: "distinct ps" "set ps \<inter> set (p # sel) = {}" by auto
  have "\<forall>m<length ps. rng (Suc i + m) mod n = ps ! m"
  proof (intro allI impI)
    fix m assume "m < length ps"
    then have "Suc m < length (p # ps)" by simp
    with Cons.prems(3) have "rng (i + Suc m) mod n = (p # ps) ! Suc m" by blast
    then show "rng (Suc i + m) mod n = ps ! m" by simp
  qed
  moreover from Cons.prems(4) have "\<forall>q\<in>set ps. q < n" by simp
  ultimately have "select_set rng (Suc i) [0..<n] (p # sel) (length ps) = Some ps"
    using d by (intro Cons.IH) simp_all
  moreover from Cons.prems(4) have "[0..<n] ! p = p" by simp
  ultimately show ?case using r by simp
qed

lemma redraw_relabel:
  assumes inj: "inj_on f {..<n}" and n: "0 < n" and sel: "set sel \<subseteq> {..<n}"
    and rel: "\<forall>i. rng' i mod n = f (rng i mod n)"
  shows "redraw rng' i n (map f sel) = map_option (\<lambda>(j, i'). (f j, i')) (redraw rng i n sel)"
proof -
  have same: "rng' j mod n \<in> set (map f sel) \<longleftrightarrow> rng j mod n \<in> set sel" for j
  proof -
    from n have "rng j mod n \<in> {..<n}" by simp
    with inj sel have "f (rng j mod n) \<in> f ` set sel \<longleftrightarrow> rng j mod n \<in> set sel"
      by (meson inj_on_image_mem_iff)
    with rel show ?thesis by simp
  qed
  show ?thesis
  proof (cases "\<exists>m\<ge>i. rng m mod n \<notin> set sel")
    case True
    then obtain m where "i \<le> m" "rng m mod n \<notin> set sel" by blast
    from redraw_least [of i m rng n sel] this obtain m' where m': "i \<le> m'"
      "rng m' mod n \<notin> set sel"
      and r: "redraw rng i n sel = Some (rng m' mod n, Suc m')" by blast
    from redraw_sound [OF r] have before: "\<forall>j. i \<le> j \<and> j < m' \<longrightarrow> rng j mod n \<in> set sel"
      by simp
    from m'(2) same have 1: "rng' m' mod n \<notin> set (map f sel)" by blast
    from before same have 2: "\<forall>j. i \<le> j \<and> j < m' \<longrightarrow> rng' j mod n \<in> set (map f sel)"
      by blast
    have "redraw rng' i n (map f sel) = Some (rng' m' mod n, Suc m')"
      using 1 2 m'(1) redraw_Some [of rng' m' n "map f sel" i] by blast
    with r rel show ?thesis by simp
  next
    case False
    then have a: "\<forall>j\<ge>i. rng j mod n \<in> set sel" by blast
    then have "\<forall>j\<ge>i. rng' j mod n \<in> set (map f sel)" using same by blast
    from redraw_None [OF this] redraw_None [OF a] show ?thesis by simp
  qed
qed

lemma select_set_relabel:
  assumes bij: "bij_betw f {..<n} {..<n}" and n: "0 < n"
    and rel: "\<forall>i. rng' i mod n = f (rng i mod n)"
  shows "set sel \<subseteq> {..<n} \<Longrightarrow>
         select_set rng' i [0..<n] (map f sel) k
           = map_option (map f) (select_set rng i [0..<n] sel k)"
proof (induction k arbitrary: i sel)
  case 0
  show ?case by simp
next
  case (Suc k)
  from bij have inj: "inj_on f {..<n}" by (rule bij_betw_imp_inj_on)
  note rd = redraw_relabel [OF inj n Suc.prems rel, of i]
  show ?case
  proof (cases "redraw rng i n sel")
    case None
    with rd show ?thesis by simp
  next
    case (Some r)
    obtain j i' where r: "r = (j, i')" by (cases r)
    from redraw_sound [OF Some] r have "j = rng (i' - 1) mod n" by simp
    with n have j: "j < n" by simp
    with bij have fj: "f j < n" by (auto dest: bij_betwE)
    from j Suc.prems have "set (j # sel) \<subseteq> {..<n}" by simp
    from Suc.IH [OF this, of i'] have
      "select_set rng' i' [0..<n] (f j # map f sel) k
         = map_option (map f) (select_set rng i' [0..<n] (j # sel) k)" by simp
    with Some r rd j fj show ?thesis
      by (simp split: option.splits)
  qed
qed


text \<open>
  Claim C3, as amended. For \<open>1 \<le> batch_size \<le> size\<close>, \<open>sample\<close> returns the experiences
  at \<open>batch_size\<close> distinct positions of the buffer, stacked field by field: in a buffer
  of at most \<open>setsize\<close> rows the positions of the partial shuffle, in a larger buffer
  the positions that \<open>random.sample\<close> draws below the size, drawing again when a
  position is selected already, which returns when every position keeps turning up among
  the draws. For \<open>batch_size > size\<close> it fails with the \<open>ValueError\<close> of
  \<open>random.sample\<close>. Whatever it returns has exactly \<open>batch_size\<close> rows, so there is no
  short batch. The positions are drawn without replacement, with no position preferred:
  every sequence of \<open>batch_size\<close> distinct positions is returned for some outputs of the
  generator; in the partial shuffle the sequence returned determines every draw; and in
  the larger buffer renaming the positions in the draws renames them in the result.
\<close>

theorem sample_law:
  "(1 \<le> k \<and> k \<le> int (len buf) \<and> len buf \<le> setsize (nat k) \<longrightarrow>
      length (select rng 0 [0..<len buf] (nat k)) = nat k
      \<and> distinct (select rng 0 [0..<len buf] (nat k))
      \<and> (\<forall>p\<in>set (select rng 0 [0..<len buf] (nat k)). p < len buf)
      \<and> sample buf rng k
          = Some (Inr (stack (map (\<lambda>p. memory buf ! p) (select rng 0 [0..<len buf] (nat k))))))
   \<and> (1 \<le> k \<and> k \<le> int (len buf) \<and> setsize (nat k) < len buf \<longrightarrow>
      sample buf rng k
        = map_option (\<lambda>ps. Inr (stack (map (\<lambda>p. memory buf ! p) ps)))
            (select_set rng 0 [0..<len buf] [] (nat k))
      \<and> (\<forall>ps. select_set rng 0 [0..<len buf] [] (nat k) = Some ps \<longrightarrow>
            length ps = nat k \<and> distinct ps \<and> (\<forall>p\<in>set ps. p < len buf))
      \<and> ((\<forall>v<len buf. \<forall>i. \<exists>m\<ge>i. rng m mod len buf = v) \<longrightarrow>
            (\<exists>ps. select_set rng 0 [0..<len buf] [] (nat k) = Some ps)))
   \<and> (int (len buf) < k \<longrightarrow> sample buf rng k = Some (Inl ValueError))
   \<and> (\<forall>states actions rewards next_states dones.
         sample buf rng k = Some (Inr (states, actions, rewards, next_states, dones)) \<longrightarrow>
         1 \<le> k \<and> k \<le> int (len buf) \<and> length states = nat k \<and> length actions = nat k
         \<and> length rewards = nat k \<and> length next_states = nat k \<and> length dones = nat k)
   \<and> (\<forall>ps. 1 \<le> k \<and> length ps = nat k \<and> distinct ps \<and> (\<forall>p\<in>set ps. p < len buf) \<longrightarrow>
         (\<exists>rng'. sample buf rng' k = Some (Inr (stack (map (\<lambda>p. memory buf ! p) ps)))))
   \<and> (\<forall>rng'. k \<le> int (len buf) \<and> len buf \<le> setsize (nat k)
           \<and> select rng' 0 [0..<len buf] (nat k) = select rng 0 [0..<len buf] (nat k) \<longrightarrow>
         (\<forall>m<nat k. rng' m mod (len buf - m) = rng m mod (len buf - m)))
   \<and> (\<forall>rng' f. setsize (nat k) < len buf \<and> bij_betw f {..<len buf} {..<len buf}
           \<and> (\<forall>i. rng' i mod len buf = f (rng i mod len buf)) \<longrightarrow>
         select_set rng' 0 [0..<len buf] [] (nat k)
           = map_option (map f) (select_set rng 0 [0..<len buf] [] (nat k)))"
proof -
  let ?n = "len buf"
  let ?row = "\<lambda>p. memory buf ! p"
  have n: "length (memory buf) = ?n" by (simp add: len_def)
  have sel: "length (select r 0 [0..<?n] (nat k)) = nat k \<and> distinct (select r 0 [0..<?n] (nat k))
      \<and> (\<forall>p\<in>set (select r 0 [0..<?n] (nat k)). p < ?n)
      \<and> select r 0 (memory buf) (nat k) = map ?row (select r 0 [0..<?n] (nat k))"
    if "k \<le> int ?n" for r
  proof -
    from that have le: "nat k \<le> length [0..<?n]" by simp
    from select_distinct [OF _ le, of r 0]
    have "distinct (select r 0 [0..<?n] (nat k))" "set (select r 0 [0..<?n] (nat k)) \<subseteq> {0..<?n}"
      "length (select r 0 [0..<?n] (nat k)) = nat k" by auto
    moreover have "select r 0 (memory buf) (nat k) = map ?row (select r 0 [0..<?n] (nat k))"
      using select_map [OF le, of r 0 ?row] by (simp add: map_nth len_def)
    ultimately show ?thesis by auto
  qed
  have 1: "length (select r 0 [0..<?n] (nat k)) = nat k \<and> distinct (select r 0 [0..<?n] (nat k))
      \<and> (\<forall>p\<in>set (select r 0 [0..<?n] (nat k)). p < ?n)
      \<and> sample buf r k = Some (Inr (stack (map ?row (select r 0 [0..<?n] (nat k)))))"
    if "1 \<le> k" "k \<le> int ?n" "?n \<le> setsize (nat k)" for r
  proof -
    from sel [OF that(2), of r] that(1) have "map ?row (select r 0 [0..<?n] (nat k)) \<noteq> []"
      by (cases "select r 0 [0..<?n] (nat k)") auto
    with sel [OF that(2), of r] that show ?thesis
      by (simp add: sample_def random_sample_def n)
  qed
  have snd: "length ps = nat k \<and> distinct ps \<and> (\<forall>p\<in>set ps. p < ?n)"
    if "setsize (nat k) < ?n" "select_set r 0 [0..<?n] [] (nat k) = Some ps" for r ps
  proof -
    from that(1) have "0 < ?n" by simp
    from select_set_sound [OF that(2) this] show ?thesis by simp
  qed
  have 2: "sample buf r k = map_option (\<lambda>ps. Inr (stack (map ?row ps)))
                              (select_set r 0 [0..<?n] [] (nat k))"
    if k: "1 \<le> k" "k \<le> int ?n" and big: "setsize (nat k) < ?n" for r
  proof -
    from big have pos: "0 < length (memory buf)" by (simp add: n)
    have rs: "random_sample r (memory buf) k
                = map_option Inr (map_option (map ?row) (select_set r 0 [0..<?n] [] (nat k)))"
      using k big select_set_positions [OF pos, of r 0 "[]" "nat k"]
      by (simp add: random_sample_def n)
    show ?thesis
    proof (cases "select_set r 0 [0..<?n] [] (nat k)")
      case None
      with rs show ?thesis by (simp add: sample_def)
    next
      case (Some ps)
      from snd [OF big Some] k(1) have "ps \<noteq> []" by (cases ps) auto
      with rs Some show ?thesis by (simp add: sample_def)
    qed
  qed
  have ret: "\<exists>ps. select_set rng 0 [0..<?n] [] (nat k) = Some ps"
    if "k \<le> int ?n" "\<forall>v<?n. \<forall>i. \<exists>m\<ge>i. rng m mod ?n = v"
  proof -
    from that(1) have "card (set ([] :: nat list)) + nat k \<le> ?n" by simp
    from select_set_returns [OF that(2) _ this, of 0] show ?thesis by simp
  qed
  have 3: "sample buf rng k = Some (Inl ValueError)" if "int ?n < k"
    using that by (simp add: sample_def random_sample_def n)
  have 4: "1 \<le> k \<and> k \<le> int ?n \<and> length states = nat k \<and> length actions = nat k
         \<and> length rewards = nat k \<and> length next_states = nat k \<and> length dones = nat k"
    if r: "sample buf rng k = Some (Inr (states, actions, rewards, next_states, dones))"
    for states actions rewards next_states dones
  proof -
    have "0 \<le> k \<and> k \<le> int ?n"
    proof (rule ccontr)
      assume "\<not> (0 \<le> k \<and> k \<le> int ?n)"
      then have "sample buf rng k = Some (Inl ValueError)"
        by (simp add: sample_def random_sample_def n)
      with r show False by simp
    qed
    then have k: "0 \<le> k" "k \<le> int ?n" by simp_all
    have "k \<noteq> 0"
    proof
      assume "k = 0"
      then have "sample buf rng k = Some (Inl ValueError)"
        by (simp add: sample_def random_sample_def)
      with r show False by simp
    qed
    with k have k1: "1 \<le> k" by simp
    show ?thesis
    proof (cases "?n \<le> setsize (nat k)")
      case True
      from 1 [OF k1 k(2) True, of rng] r show ?thesis
        using k1 k(2) by (simp add: stack_def)
    next
      case False
      then have big: "setsize (nat k) < ?n" by simp
      note m = r [unfolded 2 [OF k1 k(2) big, of rng]]
      then obtain ps where ps: "select_set rng 0 [0..<?n] [] (nat k) = Some ps"
        by (cases "select_set rng 0 [0..<?n] [] (nat k)") auto
      with m have e: "(states, actions, rewards, next_states, dones) = stack (map ?row ps)"
        by simp
      from snd [OF big ps] have "length ps = nat k" by simp
      with e show ?thesis using k1 k(2) by (simp add: stack_def)
    qed
  qed
  have 5: "\<exists>rng'. sample buf rng' k = Some (Inr (stack (map ?row ps)))"
    if k1: "1 \<le> k" and l: "length ps = nat k" and d: "distinct ps" and b: "\<forall>p\<in>set ps. p < ?n"
    for ps
  proof -
    from b have sub: "set ps \<subseteq> {..<?n}" by auto
    then have "card (set ps) \<le> card {..<?n}" by (intro card_mono) simp_all
    with d l have kn: "k \<le> int ?n" by (simp add: distinct_card)
    show ?thesis
    proof (cases "?n \<le> setsize (nat k)")
      case True
      from b have "set ps \<subseteq> set [0..<?n]" by auto
      from select_onto [OF _ d this, of 0] l obtain r where
        "select r 0 [0..<?n] (nat k) = ps" by auto
      with 1 [OF k1 kn True, of r] show ?thesis by auto
    next
      case False
      then have big: "setsize (nat k) < ?n" by simp
      have "\<forall>m<length ps. (\<lambda>i. ps ! i) (0 + m) mod ?n = ps ! m"
        using b by simp
      from select_set_exact [OF b d _ this, of "[]"] l
      have "select_set (\<lambda>i. ps ! i) 0 [0..<?n] [] (nat k) = Some ps" by simp
      with 2 [OF k1 kn big, of "\<lambda>i. ps ! i"] show ?thesis by auto
    qed
  qed
  have 6: "rng' m mod (?n - m) = rng m mod (?n - m)"
    if "k \<le> int ?n" "select rng' 0 [0..<?n] (nat k) = select rng 0 [0..<?n] (nat k)" "m < nat k"
    for rng' m
  proof -
    from that(1) have le: "nat k \<le> length [0..<?n]" by simp
    from select_one_to_one [OF _ le that(2) that(3)] show ?thesis by simp
  qed
  have 7: "select_set rng' 0 [0..<?n] [] (nat k)
             = map_option (map f) (select_set rng 0 [0..<?n] [] (nat k))"
    if "setsize (nat k) < ?n" "bij_betw f {..<?n} {..<?n}"
      "\<forall>i. rng' i mod ?n = f (rng i mod ?n)" for rng' f
  proof -
    from that(1) have "0 < ?n" by simp
    from select_set_relabel [OF that(2) this that(3), of "[]" 0 "nat k"] show ?thesis by simp
  qed
  from 1 [of rng] 2 [of rng] snd [of rng] ret 3 4 5 6 7 show ?thesis by blast
qed

text \<open>
  A sample of two from three rows, by the partial shuffle; a sample of two from thirty
  rows, where the second draw repeats the first and is drawn again; a fair sequence of
  draws; and a sample of four from three rows.
\<close>

theorem sample_law_witness:
  "sample demo_buffer (\<lambda>i. 1) 2 = Some (Inr (stack [tagged ''B'', tagged ''C'']))
   \<and> select (\<lambda>i. 1) 0 [0..<3] 2 = [1, 2]
   \<and> sample wide_buffer (\<lambda>i. if i < 2 then 1 else 29) 2
       = Some (Inr (stack [numbered 1, numbered 29]))
   \<and> select_set (\<lambda>i. if i < 2 then 1 else 29) 0 [0..<30] [] 2 = Some [1, 29]
   \<and> (\<exists>ps. select_set (\<lambda>i. i) 0 [0..<30] [] 2 = Some ps)
   \<and> sample demo_buffer (\<lambda>i. 1) 4 = Some (Inl ValueError)"
proof -
  have n: "len demo_buffer = 3" by (simp add: len_def demo_buffer_def)
  have w: "len wide_buffer = 30" by (simp add: len_def wide_buffer_def)
  have z: "setsize 2 = 21" "setsize 4 = 21" by (simp_all add: setsize_def)
  have s: "select (\<lambda>i. 1) 0 [0..<3] 2 = [1, 2]"
    by code_simp
  let ?r = "\<lambda>i :: nat. if i < 2 then 1 else 29 :: nat"
  have r0: "redraw ?r 0 30 [] = Some (1, 1)"
    using redraw_Some [of ?r 0 30 "[]" 0] by simp
  have r1: "redraw ?r (Suc 0) 30 [Suc 0] = Some (29, 3)"
  proof -
    have "\<forall>j. Suc 0 \<le> j \<and> j < 2 \<longrightarrow> ?r j mod 30 \<in> set [Suc 0]" by auto
    with redraw_Some [of ?r 2 30 "[Suc 0]" "Suc 0"] show ?thesis by (simp add: numeral_3_eq_3)
  qed
  have "select_set ?r 0 [0..<30] [] (Suc (Suc 0)) = Some [1, 29]"
    by (simp add: r0 r1 del: upt_Suc)
  then have t: "select_set ?r 0 [0..<30] [] 2 = Some [1, 29]"
    by (simp only: numeral_2_eq_2)
  have k2: "1 \<le> (2 :: int) \<and> 2 \<le> int (len demo_buffer) \<and> len demo_buffer \<le> setsize (nat 2)"
    and k4: "int (len demo_buffer) < 4"
    and w2: "1 \<le> (2 :: int) \<and> 2 \<le> int (len wide_buffer) \<and> setsize (nat 2) < len wide_buffer"
    by (simp_all add: n w z)
  from sample_law [of 2 demo_buffer "\<lambda>i. 1"] k2
  have "sample demo_buffer (\<lambda>i. 1) 2
          = Some (Inr (stack (map (\<lambda>p. memory demo_buffer ! p)
                   (select (\<lambda>i. 1) 0 [0..<len demo_buffer] (nat 2)))))"
    by blast
  also have "nat 2 = 2" by simp
  finally have a: "sample demo_buffer (\<lambda>i. 1) 2 = Some (Inr (stack [tagged ''B'', tagged ''C'']))"
    unfolding n s by (simp add: demo_buffer_def)
  from sample_law [of 2 wide_buffer ?r] w2
  have "sample wide_buffer ?r 2
          = map_option (\<lambda>ps. Inr (stack (map (\<lambda>p. memory wide_buffer ! p) ps)))
              (select_set ?r 0 [0..<len wide_buffer] [] (nat 2))"
    by blast
  also have "nat 2 = 2" by simp
  finally have b: "sample wide_buffer ?r 2 = Some (Inr (stack [numbered 1, numbered 29]))"
    unfolding w t by (simp add: wide_buffer_def del: upt_Suc)
  have fair: "\<forall>v<len wide_buffer. \<forall>i. \<exists>m\<ge>i. (\<lambda>i. i) m mod len wide_buffer = v"
  proof (intro allI impI)
    fix v i :: nat
    assume "v < len wide_buffer"
    then have "i \<le> v + len wide_buffer * i" "(v + len wide_buffer * i) mod len wide_buffer = v"
      by (simp_all add: w)
    then show "\<exists>m\<ge>i. m mod len wide_buffer = v" by blast
  qed
  from sample_law [of 2 wide_buffer "\<lambda>i. i"] w2 fair
  have "\<exists>ps. select_set (\<lambda>i. i) 0 [0..<len wide_buffer] [] (nat 2) = Some ps"
    by blast
  then have c: "\<exists>ps. select_set (\<lambda>i. i) 0 [0..<30] [] 2 = Some ps"
    by (simp add: w)
  from sample_law [of 4 demo_buffer "\<lambda>i. 1"] k4
  have d: "sample demo_buffer (\<lambda>i. 1) 4 = Some (Inl ValueError)"
    by blast
  from a s b t c d show ?thesis by blast
qed

text \<open>A batch size of zero is not larger than the size of the buffer, and fails.\<close>

theorem sample_law_counterexample:
  "(0 :: int) \<le> int (len demo_buffer)
   \<and> sample demo_buffer (\<lambda>i. 1) 0 = Some (Inl ValueError)"
  by (simp add: sample_def random_sample_def)

section \<open>The batch size that the loss takes for granted\<close>








end
